theory Spec2Isabelle
  imports Complex_Main "HOL-Library.Word"
begin

section \<open>JavaScript strings\<close>

text \<open>
  A JavaScript string is a sequence of UTF-16 code units. The library functions the
  sources call on strings (\<^verbatim>\<open>trim\<close>, \<^verbatim>\<open>replace(/\s+/g, r)\<close>, \<^verbatim>\<open>toLowerCase\<close>,
  \<^verbatim>\<open>includes\<close>, \<^verbatim>\<open>Array.from\<close>, number-to-string conversion) are modelled here on
  code units, as ECMAScript defines them. The case mapping of \<^verbatim>\<open>toLowerCase\<close> comes from
  the Unicode tables of the engine, which are no part of the repository: it is a
  parameter of the functions that lower-case.
\<close>

type_synonym unit16 = "16 word"
type_synonym jsstring = "unit16 list"

definition js :: "string \<Rightarrow> jsstring" where
  \<comment> \<open>an ASCII literal as a JavaScript string\<close>
  "js s = map of_char s"

abbreviation DQUOTE :: unit16 where "DQUOTE \<equiv> 0x22"
abbreviation COMMA :: unit16 where "COMMA \<equiv> 0x2C"
abbreviation LF :: unit16 where "LF \<equiv> 0x0A"
abbreviation CR :: unit16 where "CR \<equiv> 0x0D"
abbreviation SPACE :: unit16 where "SPACE \<equiv> 0x20"
abbreviation BOM :: unit16 where "BOM \<equiv> 0xFEFF"

definition isWhiteSpace :: "unit16 \<Rightarrow> bool" where
  \<comment> \<open>ECMAScript WhiteSpace and LineTerminator: what \<^verbatim>\<open>trim\<close> strips and \<^verbatim>\<open>\s\<close> matches\<close>
  "isWhiteSpace c =
     (c \<in> {0x09, 0x0A, 0x0B, 0x0C, 0x0D, 0x20, 0xA0, 0x1680, 0x2028, 0x2029, 0x202F,
            0x205F, 0x3000, 0xFEFF}
      \<or> (0x2000 \<le> c \<and> c \<le> 0x200A))"

definition trim :: "jsstring \<Rightarrow> jsstring" where
  "trim s = rev (dropWhile isWhiteSpace (rev (dropWhile isWhiteSpace s)))"

function replaceWs :: "jsstring \<Rightarrow> jsstring \<Rightarrow> jsstring" where
  \<comment> \<open>\<^verbatim>\<open>s.replace(/\s+/g, rep)\<close>: every maximal run of white space becomes \<open>rep\<close>\<close>
  "replaceWs rep [] = []"
| "replaceWs rep (c # cs) =
     (if isWhiteSpace c then rep @ replaceWs rep (dropWhile isWhiteSpace cs)
      else c # replaceWs rep cs)"
  by pat_completeness auto
termination
  by (relation "measure (\<lambda>(rep, s). length s)")
     (auto simp: le_imp_less_Suc length_dropWhile_le)

type_synonym lower_table = "jsstring \<Rightarrow> nat \<Rightarrow> jsstring"
  \<comment> \<open>\<open>tbl s i\<close>: what the code unit at position \<open>i\<close> of \<open>s\<close> becomes in lower case. The
      mapping may depend on the units around it (a capital sigma at the end of a word)
      and may be longer than one unit (U+0130 becomes two units)\<close>

definition toLowerCase :: "lower_table \<Rightarrow> jsstring \<Rightarrow> jsstring" where
  \<comment> \<open>\<^verbatim>\<open>String.prototype.toLowerCase\<close>: every code unit replaced by its lower-case mapping
      in the string, for the case mapping \<open>tbl\<close> of the engine\<close>
  "toLowerCase tbl s = concat (map (tbl s) [0..<length s])"

fun str_includes :: "jsstring \<Rightarrow> jsstring \<Rightarrow> bool" where
  \<comment> \<open>\<^verbatim>\<open>t.includes(q)\<close>: \<open>q\<close> occurs in \<open>t\<close> at some position\<close>
  "str_includes [] q = (q = [])"
| "str_includes (c # cs) q = (take (length q) (c # cs) = q \<or> str_includes cs q)"

definition isHighSurrogate :: "unit16 \<Rightarrow> bool" where
  "isHighSurrogate c = (0xD800 \<le> c \<and> c \<le> 0xDBFF)"

definition isLowSurrogate :: "unit16 \<Rightarrow> bool" where
  "isLowSurrogate c = (0xDC00 \<le> c \<and> c \<le> 0xDFFF)"

fun Array_from :: "jsstring \<Rightarrow> jsstring list" where
  \<comment> \<open>\<^verbatim>\<open>Array.from(s)\<close>: the string iterator yields one element per code point, a
      high surrogate followed by a low surrogate being one code point\<close>
  "Array_from [] = []"
| "Array_from [c] = [[c]]"
| "Array_from (c # d # cs) =
     (if isHighSurrogate c \<and> isLowSurrogate d then [c, d] # Array_from cs
      else [c] # Array_from (d # cs))"

function toString :: "nat \<Rightarrow> jsstring" where
  \<comment> \<open>the decimal digits of a non-negative integer, as a template literal prints it\<close>
  "toString n =
     (if n < 10 then [0x30 + of_nat n]
      else toString (n div 10) @ [0x30 + of_nat (n mod 10)])"
  by pat_completeness auto
termination
  by (relation "measure id") auto

section \<open>lib/csv.js\<close>

subsection \<open>parseCSV\<close>

record parser =
  rows :: "jsstring list list"
  row :: "jsstring list"
  field :: jsstring
  inQuotes :: bool

definition someNonBlank :: "jsstring list \<Rightarrow> bool" where
  \<comment> \<open>\<^verbatim>\<open>row.some((v) => (v ?? "").toString().trim() !== "")\<close>\<close>
  "someNonBlank r = list_ex (\<lambda>v. trim v \<noteq> []) r"

definition nextIs :: "unit16 \<Rightarrow> jsstring \<Rightarrow> bool" where
  \<comment> \<open>\<^verbatim>\<open>text[i + 1] === c\<close>; past the end the read is \<^verbatim>\<open>undefined\<close> and the test fails\<close>
  "nextIs c rest = (case rest of [] \<Rightarrow> False | d # _ \<Rightarrow> d = c)"

definition endRow :: "jsstring list list \<Rightarrow> jsstring list \<Rightarrow> jsstring \<Rightarrow> jsstring list list" where
  \<comment> \<open>\<^verbatim>\<open>row.push(field); if (row.some(...)) rows.push(row)\<close>: the rows afterwards\<close>
  "endRow rs r f = (if someNonBlank (r @ [f]) then rs @ [r @ [f]] else rs)"

function scan ::
  "jsstring \<Rightarrow> jsstring list list \<Rightarrow> jsstring list \<Rightarrow> jsstring \<Rightarrow> bool \<Rightarrow> parser" where
  \<comment> \<open>the \<^verbatim>\<open>for\<close> loop of parseCSV over the text from position \<open>i\<close> on, with the values
      of \<^verbatim>\<open>rows\<close>, \<^verbatim>\<open>row\<close>, \<^verbatim>\<open>field\<close> and \<^verbatim>\<open>inQuotes\<close> at that position; the
      result is their values when the loop ends\<close>
  "scan [] rs r f q = \<lparr>rows = rs, row = r, field = f, inQuotes = q\<rparr>"
| "scan (ch # rest) rs r f q =
     (if ch = DQUOTE then
        (if q \<and> nextIs DQUOTE rest then scan (tl rest) rs r (f @ [DQUOTE]) q
         else scan rest rs r f (\<not> q))
      else if \<not> q \<and> ch = COMMA then scan rest rs (r @ [f]) [] q
      else if \<not> q \<and> (ch = LF \<or> ch = CR) then
        scan (if ch = CR \<and> nextIs LF rest then tl rest else rest) (endRow rs r f) [] [] q
      else scan rest rs r (f @ [ch]) q)"
  by pat_completeness auto
termination
  by (relation "measure (\<lambda>(t, rs, r, f, q). length t)") auto

definition parseCSV :: "jsstring \<Rightarrow> jsstring list list" where
  "parseCSV text =
     (let p = scan text [] [] [] False in endRow (rows p) (row p) (field p))"

subsection \<open>stripBom, normalizeHeader\<close>

fun stripBom :: "jsstring \<Rightarrow> jsstring" where
  "stripBom [] = []"
| "stripBom (c # cs) = (if c = BOM then cs else c # cs)"

definition normalizeHeader :: "jsstring \<Rightarrow> jsstring" where
  "normalizeHeader h = replaceWs [] (trim (stripBom h))"

subsection \<open>rowsToObjects\<close>

text \<open>
  A row object is a plain JavaScript object whose property values are strings: a finite
  map from property keys to strings, \<open>None\<close> where a read yields \<^verbatim>\<open>undefined\<close>.
\<close>

type_synonym obj = "jsstring \<rightharpoonup> jsstring"

definition setProp :: "obj \<Rightarrow> jsstring \<Rightarrow> jsstring \<Rightarrow> obj" where
  \<comment> \<open>\<^verbatim>\<open>obj[key] = v\<close> with a string \<open>v\<close>: an own property is written, except under the
      key \<^verbatim>\<open>__proto__\<close>, the accessor every plain object inherits, whose setter does
      nothing when it is given a string\<close>
  "setProp ob key v = (if key = js ''__proto__'' then ob else ob(key \<mapsto> v))"

definition cell :: "jsstring list \<Rightarrow> nat \<Rightarrow> jsstring" where
  \<comment> \<open>\<^verbatim>\<open>r[i] ?? ""\<close>: a read past the end of the row is \<^verbatim>\<open>undefined\<close>\<close>
  "cell r i = (if i < length r then r ! i else [])"

definition colKey :: "jsstring list \<Rightarrow> nat \<Rightarrow> jsstring" where
  \<comment> \<open>\<^verbatim>\<open>headers[i] || `__col_${i}`\<close> for \<open>i < length headers\<close>: the empty string is falsy\<close>
  "colKey headers i = (if headers ! i = [] then js ''__col_'' @ toString i else headers ! i)"

definition rowToObject :: "jsstring list \<Rightarrow> nat \<Rightarrow> jsstring list \<Rightarrow> obj" where
  \<comment> \<open>the callback of \<^verbatim>\<open>dataRows.map\<close>: the object literal, then the loop over the columns\<close>
  "rowToObject headers idx r =
     fold (\<lambda>i ob. setProp ob (colKey headers i) (trim (cell r i)))
          [0..<length headers]
          [js ''__id'' \<mapsto> toString idx]"

definition rowsToObjects :: "jsstring list list \<Rightarrow> obj list" where
  "rowsToObjects rs =
     (case rs of
        [] \<Rightarrow> []
      | headersRaw # dataRows \<Rightarrow>
          map (\<lambda>(idx, r). rowToObject (map normalizeHeader headersRaw) idx r)
              (enumerate 0 dataRows))"

subsection \<open>normalizeText, countGraphemes\<close>

definition normalizeText :: "lower_table \<Rightarrow> jsstring \<Rightarrow> jsstring" where
  "normalizeText tbl s = replaceWs [SPACE] (toLowerCase tbl (trim s))"

definition countGraphemes :: "jsstring \<Rightarrow> nat" where
  "countGraphemes s = length (Array_from s)"

section \<open>The search page\<close>

text \<open>
  Two versions of the page component are in the repository. Both keep the typed query, the
  submitted query, a field-level message and the current page as state, and derive the
  result list and the shown page from it. App.jsx loads one catalogue and asks for two
  characters; the other version has the user choose one of two libraries first, accepts
  one character and also compares with all white space removed.
\<close>

record book =
  b_id :: "jsstring option"
  b_title :: jsstring
  b_author :: jsstring
  b_publisher :: jsstring

text \<open>The three property keys of a book, Korean for title, author and publisher.\<close>

definition KEY_TITLE :: jsstring where "KEY_TITLE = [0xC11C, 0xBA85]"
definition KEY_AUTHOR :: jsstring where "KEY_AUTHOR = [0xC800, 0xC790]"
definition KEY_PUBLISHER :: jsstring where "KEY_PUBLISHER = [0xCD9C, 0xD310, 0xC0AC]"

datatype search_field = Title | Author | Publisher
  \<comment> \<open>the values of FIELD_OPTIONS, the only ones the field selector can set\<close>

fun fieldOf :: "search_field \<Rightarrow> book \<Rightarrow> jsstring" where
  \<comment> \<open>\<^verbatim>\<open>b[selectedField]\<close>\<close>
  "fieldOf Title b = b_title b"
| "fieldOf Author b = b_author b"
| "fieldOf Publisher b = b_publisher b"

datatype message =
    NoMessage \<comment> \<open>the empty string: nothing is shown\<close>
  | EnterQuery \<comment> \<open>"enter a search term"\<close>
  | AtLeastTwo \<comment> \<open>"enter two or more characters, spaces not counted"\<close>
  | SelectSite \<comment> \<open>"choose one of the two libraries first"\<close>

record app =
  selectedField :: search_field
  query :: jsstring
  submittedQuery :: jsstring
  error :: message
  currentPage :: int

subsection \<open>Pagination (the same in both versions)\<close>

definition PAGE_SIZE :: nat where "PAGE_SIZE = 10"

definition totalPages :: "nat \<Rightarrow> int" where
  \<comment> \<open>\<^verbatim>\<open>Math.max(1, Math.ceil(totalResults / PAGE_SIZE))\<close>; the quotient of two array
      lengths is far inside the range where the floating-point ceiling is the exact one\<close>
  "totalPages totalResults = max 1 \<lceil>real totalResults / real PAGE_SIZE\<rceil>"

definition safePage :: "int \<Rightarrow> nat \<Rightarrow> int" where
  \<comment> \<open>\<^verbatim>\<open>Math.min(Math.max(1, currentPage), totalPages)\<close>\<close>
  "safePage page totalResults = min (max 1 page) (totalPages totalResults)"

definition array_slice :: "'a list \<Rightarrow> int \<Rightarrow> int \<Rightarrow> 'a list" where
  \<comment> \<open>\<^verbatim>\<open>Array.prototype.slice\<close> on integers: a negative index counts from the end, both
      indices are clamped to the array\<close>
  "array_slice xs start stop =
     (let len = int (length xs);
          k = (if start < 0 then max (len + start) 0 else min start len);
          final = (if stop < 0 then max (len + stop) 0 else min stop len)
      in take (nat (final - k)) (drop (nat k) xs))"

definition pageItems :: "'a list \<Rightarrow> int \<Rightarrow> 'a list" where
  "pageItems results page =
     (let start = (safePage page (length results) - 1) * int PAGE_SIZE
      in array_slice results start (start + int PAGE_SIZE))"

subsection \<open>App.jsx\<close>

record strict_app = app +
  books :: "book list"

definition pickField :: "obj \<Rightarrow> jsstring \<Rightarrow> jsstring option" where
  "pickField ob wantedHeader = ob (normalizeHeader wantedHeader)"

definition orEmpty :: "jsstring option \<Rightarrow> jsstring" where
  \<comment> \<open>\<^verbatim>\<open>v ?? ""\<close>\<close>
  "orEmpty v = (case v of None \<Rightarrow> [] | Some x \<Rightarrow> x)"

definition toBook :: "obj \<Rightarrow> book" where
  "toBook ob =
     \<lparr>b_id = ob (js ''__id''),
      b_title = trim (orEmpty (pickField ob KEY_TITLE)),
      b_author = trim (orEmpty (pickField ob KEY_AUTHOR)),
      b_publisher = trim (orEmpty (pickField ob KEY_PUBLISHER))\<rparr>"

definition runSearch :: "strict_app \<Rightarrow> strict_app" where
  "runSearch s =
     (let trimmed = trim (query s) in
      if trimmed = [] then
        s\<lparr>error := EnterQuery, submittedQuery := [], currentPage := 1\<rparr>
      else if length (Array_from trimmed) < 2 then
        s\<lparr>error := AtLeastTwo, submittedQuery := [], currentPage := 1\<rparr>
      else
        s\<lparr>error := NoMessage, submittedQuery := trimmed, currentPage := 1\<rparr>)"

definition filtered :: "lower_table \<Rightarrow> strict_app \<Rightarrow> book list" where
  "filtered tbl s =
     (let q = normalizeText tbl (submittedQuery s) in
      if q = [] then []
      else filter (\<lambda>b. str_includes (normalizeText tbl (fieldOf (selectedField s) b)) q)
                  (books s))"

subsection \<open>The version with a library selector\<close>

definition normalizeBase :: "lower_table \<Rightarrow> jsstring \<Rightarrow> jsstring" where
  "normalizeBase tbl s = replaceWs [SPACE] (toLowerCase tbl (trim s))"

definition normalizeNoSpace :: "lower_table \<Rightarrow> jsstring \<Rightarrow> jsstring" where
  "normalizeNoSpace tbl s = replaceWs [] (normalizeBase tbl s)"

datatype response =
    Rejected \<comment> \<open>the request itself failed\<close>
  | Response bool nat jsstring \<comment> \<open>\<^verbatim>\<open>res.ok\<close>, \<^verbatim>\<open>res.status\<close>, the body\<close>

datatype load_message =
    NoLoadError
  | NoCsvConfigured
  | NotLoaded jsstring nat \<comment> \<open>file name and HTTP status\<close>
  | OtherLoadError

record lenient_app = app +
  site :: jsstring
  cache :: "jsstring \<rightharpoonup> book list"
  loading :: bool
  loadError :: load_message

definition CSV_BY_SITE :: "jsstring \<rightharpoonup> jsstring" where
  "CSV_BY_SITE = [js ''3'' \<mapsto> js ''books_3.csv'', js ''4'' \<mapsto> js ''books_4.csv'']"

definition lenient_books :: "lenient_app \<Rightarrow> book list" where
  \<comment> \<open>\<^verbatim>\<open>site ? cache[site] ?? [] : []\<close>\<close>
  "lenient_books s =
     (if site s = [] then [] else case cache s (site s) of None \<Rightarrow> [] | Some bs \<Rightarrow> bs)"

definition lenient_toBook :: "obj \<Rightarrow> book" where
  "lenient_toBook ob =
     \<lparr>b_id = ob (js ''__id''),
      b_title = trim (orEmpty (ob KEY_TITLE)),
      b_author = trim (orEmpty (ob KEY_AUTHOR)),
      b_publisher = trim (orEmpty (ob KEY_PUBLISHER))\<rparr>"

definition loadSiteBooksIfNeeded ::
  "(jsstring \<Rightarrow> response) \<Rightarrow> (jsstring \<rightharpoonup> book list) \<Rightarrow> jsstring
     \<Rightarrow> load_message + (jsstring \<rightharpoonup> book list)" where
  \<comment> \<open>\<open>fetch\<close> answers a request for a file of the site; a thrown error is \<open>Inl\<close>, and the
      result is the cache after the call\<close>
  "loadSiteBooksIfNeeded fetch c siteValue =
     (if siteValue = [] then Inr c
      else if c siteValue \<noteq> None then Inr c
      else case CSV_BY_SITE siteValue of
        None \<Rightarrow> Inl NoCsvConfigured
      | Some filename \<Rightarrow>
          (case fetch filename of
             Rejected \<Rightarrow> Inl OtherLoadError
           | Response ok status text \<Rightarrow>
               if \<not> ok then Inl (NotLoaded filename status)
               else Inr (c(siteValue \<mapsto> map lenient_toBook (rowsToObjects (parseCSV text))))))"

definition lenient_runSearch :: "(jsstring \<Rightarrow> response) \<Rightarrow> lenient_app \<Rightarrow> lenient_app" where
  "lenient_runSearch fetch s =
     (let trimmed = trim (query s) in
      if site s = [] then
        s\<lparr>error := SelectSite, submittedQuery := [], currentPage := 1\<rparr>
      else if trimmed = [] then
        s\<lparr>error := EnterQuery, submittedQuery := [], currentPage := 1\<rparr>
      else
        (case loadSiteBooksIfNeeded fetch (cache s) (site s) of
           Inr c \<Rightarrow>
             s\<lparr>error := NoMessage, submittedQuery := trimmed, currentPage := 1,
               cache := c, loading := False, loadError := NoLoadError\<rparr>
         | Inl e \<Rightarrow>
             s\<lparr>error := NoMessage, submittedQuery := [], currentPage := 1,
               loading := False, loadError := e\<rparr>))"

definition lenient_filtered :: "lower_table \<Rightarrow> lenient_app \<Rightarrow> book list" where
  "lenient_filtered tbl s =
     (let q = normalizeBase tbl (submittedQuery s) in
      if q = [] then []
      else
        (let qNoSpace = normalizeNoSpace tbl (submittedQuery s) in
         filter (\<lambda>b.
                   let target = fieldOf (selectedField s) b;
                       t = normalizeBase tbl target;
                       tNoSpace = normalizeNoSpace tbl target
                   in str_includes t q \<or> str_includes tNoSpace qNoSpace)
                (lenient_books s)))"

section \<open>Notions used in the statements\<close>

text \<open>
  \<open>quotesClosed l\<close>: after the text \<open>l\<close> the parser is outside quotes, so a line terminator
  that follows is one outside quotes. \<open>csvLine fs\<close> is a line written the usual way: the
  fields separated by commas, a field that holds a comma, a double quote or a line
  terminator put between double quotes with its double quotes doubled.
\<close>

definition quotesClosed :: "jsstring \<Rightarrow> bool" where
  "quotesClosed l = (\<not> inQuotes (scan l [] [] [] False))"

definition quoted :: "jsstring \<Rightarrow> jsstring" where
  "quoted body =
     DQUOTE # concat (map (\<lambda>c. if c = DQUOTE then [DQUOTE, DQUOTE] else [c]) body) @ [DQUOTE]"

definition plain :: "jsstring \<Rightarrow> bool" where
  "plain x = (set x \<inter> {DQUOTE, COMMA, LF, CR} = {})"

definition csvField :: "jsstring \<Rightarrow> jsstring" where
  "csvField x = (if plain x then x else quoted x)"

fun csvLine :: "jsstring list \<Rightarrow> jsstring" where
  "csvLine [] = []"
| "csvLine [x] = csvField x"
| "csvLine (x # y # ys) = csvField x @ COMMA # csvLine (y # ys)"

text \<open>
  \<open>wsWords s\<close> are the words of \<open>s\<close>: its maximal runs of code units that are not white
  space, in order. \<open>joinSpace\<close> puts one space between neighbouring words.
\<close>

function wsWords :: "jsstring \<Rightarrow> jsstring list" where
  "wsWords s =
     (let s' = dropWhile isWhiteSpace s in
      if s' = [] then []
      else takeWhile (\<lambda>c. \<not> isWhiteSpace c) s'
           # wsWords (dropWhile (\<lambda>c. \<not> isWhiteSpace c) s'))"
  by pat_completeness auto
termination
proof (relation "measure length")
  show "wf (measure length)" by simp
next
  fix s s' :: jsstring
  assume s': "s' = dropWhile isWhiteSpace s" and ne: "s' \<noteq> []"
  from ne s' have "\<not> isWhiteSpace (hd s')" by (simp add: hd_dropWhile)
  with ne have "length (dropWhile (\<lambda>c. \<not> isWhiteSpace c) s') < length s'"
    by (cases s') (simp_all add: le_imp_less_Suc length_dropWhile_le)
  also have "length s' \<le> length s" by (simp add: s' length_dropWhile_le)
  finally show "(dropWhile (\<lambda>c. \<not> isWhiteSpace c) s', s) \<in> measure length" by simp
qed

fun joinSpace :: "jsstring list \<Rightarrow> jsstring" where
  "joinSpace [] = []"
| "joinSpace [w] = w"
| "joinSpace (w # v # ws) = w @ SPACE # joinSpace (v # ws)"


declare wsWords.simps [simp del]

definition noTrailingWs :: "jsstring \<Rightarrow> bool" where
  "noTrailingWs u = (u = [] \<or> \<not> isWhiteSpace (last u))"

text \<open>
  What is used of the case mapping of the engine, \<open>unicodeLower tbl\<close>: a white-space unit
  stays as it is (white space has no case); any other unit becomes one or more units, none
  of them white space; a unit of Basic Latin becomes its usual lower-case letter, whatever
  stands around it. Nothing is said about letters outside Basic Latin. \<open>asciiTable\<close>, which
  lower-cases Basic Latin and leaves every other unit alone, is one such mapping.
\<close>

definition asciiLowerUnit :: "unit16 \<Rightarrow> unit16" where
  "asciiLowerUnit c = (if 0x41 \<le> c \<and> c \<le> 0x5A then c + 0x20 else c)"

definition unicodeLower :: "lower_table \<Rightarrow> bool" where
  "unicodeLower tbl =
     (\<forall>s i. i < length s \<longrightarrow>
        (isWhiteSpace (s ! i) \<longrightarrow> tbl s i = [s ! i])
        \<and> (\<not> isWhiteSpace (s ! i) \<longrightarrow> tbl s i \<noteq> [] \<and> (\<forall>c\<in>set (tbl s i). \<not> isWhiteSpace c))
        \<and> (s ! i < 0x80 \<longrightarrow> tbl s i = [asciiLowerUnit (s ! i)]))"

definition asciiTable :: lower_table where
  "asciiTable s i = [asciiLowerUnit (s ! i)]"

text \<open>
  The forms the matching rule speaks of. \<open>collapsedForm\<close>: the string trimmed and in lower
  case, its words joined by single spaces. \<open>strippedForm\<close>: the same words with nothing
  between them. \<open>occursIn q t\<close>: \<open>q\<close> is a contiguous part of \<open>t\<close>. \<open>fieldValue\<close>: the value of
  the selected field of a book.
\<close>

definition collapsedForm :: "lower_table \<Rightarrow> jsstring \<Rightarrow> jsstring" where
  "collapsedForm tbl s = joinSpace (wsWords (toLowerCase tbl (trim s)))"

definition strippedForm :: "lower_table \<Rightarrow> jsstring \<Rightarrow> jsstring" where
  "strippedForm tbl s = concat (wsWords (toLowerCase tbl (trim s)))"

definition occursIn :: "jsstring \<Rightarrow> jsstring \<Rightarrow> bool" where
  "occursIn q t = (\<exists>pre suf. t = pre @ q @ suf)"

definition fieldValue :: "search_field \<Rightarrow> book \<Rightarrow> jsstring" where
  "fieldValue f b = (case f of Title \<Rightarrow> b_title b | Author \<Rightarrow> b_author b | Publisher \<Rightarrow> b_publisher b)"

text \<open>
  What the specification asks the length check to count: the characters a user perceives,
  modelled for the combining diacritical marks and for the Hangul vowel and final letters
  that join the syllable before them. Such a code point belongs to the character before
  it; every other code point begins a character.
\<close>

definition isCombiningMark :: "unit16 \<Rightarrow> bool" where
  "isCombiningMark c = (0x0300 \<le> c \<and> c \<le> 0x036F)"

definition isConjoiningJamo :: "unit16 \<Rightarrow> bool" where
  "isConjoiningJamo c = (0x1160 \<le> c \<and> c \<le> 0x11FF)"

definition isMark :: "jsstring \<Rightarrow> bool" where
  "isMark p = (case p of [c] \<Rightarrow> isCombiningMark c \<or> isConjoiningJamo c | _ \<Rightarrow> False)"

fun clusters :: "jsstring list \<Rightarrow> nat" where
  "clusters [] = 0"
| "clusters [p] = 1"
| "clusters (p # m # ps) = (if isMark m then clusters (p # ps) else Suc (clusters (m # ps)))"

definition perceivedCharacters :: "jsstring \<Rightarrow> nat" where
  "perceivedCharacters s = clusters (Array_from s)"

text \<open>Two books and a state of each version of the page, for the examples.\<close>

definition book_foo :: book where
  "book_foo = \<lparr>b_id = Some (js ''0''), b_title = js ''foo bar'', b_author = js ''Kim'',
                b_publisher = js ''Pub''\<rparr>"

definition book_FOO :: book where
  "book_FOO = \<lparr>b_id = Some (js ''1''), b_title = js ''FOO BAR'', b_author = js ''Lee'',
                b_publisher = js ''Pub''\<rparr>"

definition strict_example :: strict_app where
  "strict_example =
     \<lparr>selectedField = Title, query = js '' foo   bar '', submittedQuery = [],
      error = NoMessage, currentPage = 1, books = [book_FOO]\<rparr>"

definition lenient_example :: lenient_app where
  "lenient_example =
     \<lparr>selectedField = Title, query = js ''foobar'', submittedQuery = js ''foobar'',
      error = NoMessage, currentPage = 1, site = js ''4'',
      cache = [js ''4'' \<mapsto> [book_foo]], loading = False, loadError = NoLoadError\<rparr>"

definition typed :: "jsstring \<Rightarrow> strict_app" where
  "typed q = \<lparr>selectedField = Title, query = q, submittedQuery = [], error = NoMessage,
              currentPage = 1, books = [book_FOO]\<rparr>"

definition strict_shown :: strict_app where
  "strict_shown = runSearch strict_example"

definition lenient_unselected :: lenient_app where
  "lenient_unselected = lenient_example\<lparr>site := []\<rparr>"

definition noNetwork :: "jsstring \<Rightarrow> response" where
  "noNetwork filename = Rejected"

definition example_header :: "jsstring list" where
  "example_header = [js '' Title '', js '' '', js ''Author'']"

section \<open>Library facts about the string operations\<close>

lemma filter_dropWhile_ws:
  "filter (\<lambda>c. \<not> isWhiteSpace c) (dropWhile isWhiteSpace s) = filter (\<lambda>c. \<not> isWhiteSpace c) s"
  by (induction s) auto

lemma filter_trim:
  "filter (\<lambda>c. \<not> isWhiteSpace c) (trim s) = filter (\<lambda>c. \<not> isWhiteSpace c) s"
proof -
  have "filter (\<lambda>c. \<not> isWhiteSpace c) (trim s)
      = rev (filter (\<lambda>c. \<not> isWhiteSpace c) (dropWhile isWhiteSpace (rev (dropWhile isWhiteSpace s))))"
    by (simp add: trim_def rev_filter)
  also have "\<dots> = rev (filter (\<lambda>c. \<not> isWhiteSpace c) (rev (dropWhile isWhiteSpace s)))"
    by (simp only: filter_dropWhile_ws)
  also have "\<dots> = filter (\<lambda>c. \<not> isWhiteSpace c) s"
    by (simp add: rev_filter [symmetric] filter_dropWhile_ws)
  finally show ?thesis .
qed

lemma replaceWs_empty: "replaceWs [] s = filter (\<lambda>c. \<not> isWhiteSpace c) s"
  by (induction "[] :: jsstring" s rule: replaceWs.induct) (simp_all add: filter_dropWhile_ws)

lemma filter_stripBom:
  "filter (\<lambda>c. \<not> isWhiteSpace c) (stripBom s) = filter (\<lambda>c. \<not> isWhiteSpace c) s"
  by (cases s) (simp_all add: isWhiteSpace_def)

lemma wsWords_all_ws: "\<forall>c\<in>set t. isWhiteSpace c \<Longrightarrow> wsWords t = []"
  by (subst wsWords.simps) simp

lemma wsWords_ltrim: "wsWords (dropWhile isWhiteSpace s) = wsWords s"
  by (subst wsWords.simps, subst (2) wsWords.simps) simp

lemma takeWhile_nonws_ws: "\<forall>c\<in>set t. isWhiteSpace c \<Longrightarrow> takeWhile (\<lambda>c. \<not> isWhiteSpace c) t = []"
  by (cases t) simp_all

lemma rtrim_decomp:
  "s = rev (dropWhile isWhiteSpace (rev s)) @ rev (takeWhile isWhiteSpace (rev s))"
proof -
  have "rev (takeWhile isWhiteSpace (rev s) @ dropWhile isWhiteSpace (rev s)) = rev (rev s)"
    by (simp only: takeWhile_dropWhile_id)
  then show ?thesis by (simp only: rev_append rev_rev_ident)
qed

lemma replaceWs_nonws_prefix:
  "\<forall>c\<in>set w. \<not> isWhiteSpace c \<Longrightarrow> replaceWs rep (w @ rest) = w @ replaceWs rep rest"
  by (induction w) simp_all

lemma wsWords_nonempty:
  "u \<noteq> [] \<Longrightarrow> noTrailingWs u \<Longrightarrow> wsWords u \<noteq> []"
proof -
  assume "u \<noteq> []" "noTrailingWs u"
  then have "last u \<in> set u" "\<not> isWhiteSpace (last u)"
    by (simp_all add: noTrailingWs_def)
  then have "dropWhile isWhiteSpace u \<noteq> []"
    by auto
  then show ?thesis
    by (subst wsWords.simps) (simp add: Let_def del: dropWhile_eq_Nil_conv)
qed

lemma noTrailingWs_suffix:
  "noTrailingWs (a @ b) \<Longrightarrow> b \<noteq> [] \<Longrightarrow> noTrailingWs b"
  by (simp add: noTrailingWs_def)

lemma replaceWs_words:
  "noTrailingWs u \<Longrightarrow> replaceWs [SPACE] (dropWhile isWhiteSpace u) = joinSpace (wsWords u)"
proof (induction u rule: wsWords.induct)
  case (1 s)
  let ?s' = "dropWhile isWhiteSpace s"
  let ?w = "takeWhile (\<lambda>c. \<not> isWhiteSpace c) ?s'"
  let ?rest = "dropWhile (\<lambda>c. \<not> isWhiteSpace c) ?s'"
  show ?case
  proof (cases "?s' = []")
    case True
    then have "wsWords s = []" by (subst wsWords.simps) simp
    with True show ?thesis by (simp del: dropWhile_eq_Nil_conv)
  next
    case False
    have ws: "wsWords s = ?w # wsWords ?rest"
      using False by (subst wsWords.simps) (simp add: Let_def del: dropWhile_eq_Nil_conv)
    have "replaceWs [SPACE] ?s' = replaceWs [SPACE] (?w @ ?rest)" by simp
    also have "\<dots> = ?w @ replaceWs [SPACE] ?rest"
      by (rule replaceWs_nonws_prefix) (auto dest: set_takeWhileD)
    finally have step: "replaceWs [SPACE] ?s' = ?w @ replaceWs [SPACE] ?rest" .
    show ?thesis
    proof (cases "?rest = []")
      case True
      have "wsWords [] = []" by (simp add: wsWords_all_ws)
      then have "wsWords ?rest = []" by (simp only: True)
      with step True ws show ?thesis by (simp del: dropWhile_eq_Nil_conv)
    next
      case rest: False
      have "noTrailingWs (takeWhile isWhiteSpace s @ ?s')"
        using "1.prems" by simp
      then have "noTrailingWs ?s'"
        using False by (rule noTrailingWs_suffix)
      then have "noTrailingWs (?w @ ?rest)"
        by simp
      then have ntr: "noTrailingWs ?rest"
        using rest by (rule noTrailingWs_suffix)
      obtain c cs where ccs: "?rest = c # cs" using rest by (cases ?rest) auto
      have "\<not> \<not> isWhiteSpace (hd ?rest)" using rest by (rule hd_dropWhile)
      with ccs have wsc: "isWhiteSpace c" by simp
      have "replaceWs [SPACE] ?rest = SPACE # replaceWs [SPACE] (dropWhile isWhiteSpace ?rest)"
        using wsc by (simp add: ccs)
      also have "replaceWs [SPACE] (dropWhile isWhiteSpace ?rest) = joinSpace (wsWords ?rest)"
        using "1.IH" [OF refl False ntr] .
      finally have r: "replaceWs [SPACE] ?rest = SPACE # joinSpace (wsWords ?rest)" .
      obtain x xs where xxs: "wsWords ?rest = x # xs"
        using wsWords_nonempty [OF rest ntr] by (cases "wsWords ?rest") auto
      have "joinSpace (?w # wsWords ?rest) = ?w @ SPACE # joinSpace (wsWords ?rest)"
        by (simp only: xxs joinSpace.simps)
      then have "joinSpace (wsWords s) = ?w @ SPACE # joinSpace (wsWords ?rest)"
        by (simp only: ws)
      moreover have "replaceWs [SPACE] ?s' = ?w @ SPACE # joinSpace (wsWords ?rest)"
        by (simp only: step r)
      ultimately show ?thesis by (simp only:)
    qed
  qed
qed

lemma trim_noTrailingWs: "noTrailingWs (trim x)"
proof (cases "trim x = []")
  case True
  then show ?thesis by (simp add: noTrailingWs_def)
next
  case False
  let ?ys = "dropWhile isWhiteSpace (rev (dropWhile isWhiteSpace x))"
  from False have ne: "?ys \<noteq> []" by (simp add: trim_def del: dropWhile_eq_Nil_conv)
  then have "\<not> isWhiteSpace (hd ?ys)" by (rule hd_dropWhile)
  moreover have "last (trim x) = hd ?ys"
    using ne by (simp add: trim_def last_rev del: dropWhile_eq_Nil_conv)
  ultimately show ?thesis by (simp add: noTrailingWs_def)
qed

lemma trim_noLeadingWs: "dropWhile isWhiteSpace (trim x) = trim x"
proof (cases "dropWhile isWhiteSpace x = []")
  case True
  then show ?thesis by (simp add: trim_def del: dropWhile_eq_Nil_conv)
next
  case False
  let ?l = "dropWhile isWhiteSpace x"
  from False have hd: "\<not> isWhiteSpace (hd ?l)" by (rule hd_dropWhile)
  have dec: "?l = trim x @ rev (takeWhile isWhiteSpace (rev ?l))"
    unfolding trim_def by (rule rtrim_decomp)
  have "trim x \<noteq> []"
  proof
    assume "trim x = []"
    then have "\<forall>c\<in>set ?l. isWhiteSpace c"
      by (simp add: trim_def)
    with False hd show False using hd_in_set [OF False] by blast
  qed
  then obtain a as where aas: "trim x = a # as" by (cases "trim x") auto
  with dec have "hd ?l = a" by (metis append_Cons list.sel(1))
  with hd aas show ?thesis by simp
qed

lemma trim_idem: "trim (trim s) = trim s"
proof -
  have "trim (trim s) = rev (dropWhile isWhiteSpace (rev (trim s)))"
    by (subst trim_def) (simp only: trim_noLeadingWs)
  also have "\<dots> = trim s"
    by (simp add: trim_def)
  finally show ?thesis .
qed

lemma replaceWs_eq_Nil: "rep \<noteq> [] \<Longrightarrow> replaceWs rep u = [] \<longleftrightarrow> u = []"
  by (cases u) simp_all

lemma str_includes_iff: "str_includes t q \<longleftrightarrow> (\<exists>pre suf. t = pre @ q @ suf)"
proof (induction t)
  case Nil
  show ?case by auto
next
  case (Cons c cs)
  have here: "take (length q) (c # cs) = q \<longleftrightarrow> (\<exists>suf. c # cs = q @ suf)"
  proof
    assume "take (length q) (c # cs) = q"
    then have "c # cs = q @ drop (length q) (c # cs)"
      by (metis append_take_drop_id)
    then show "\<exists>suf. c # cs = q @ suf" ..
  next
    assume "\<exists>suf. c # cs = q @ suf"
    then obtain suf where "c # cs = q @ suf" ..
    then show "take (length q) (c # cs) = q" by simp
  qed
  show ?case
  proof
    assume "str_includes (c # cs) q"
    then consider "take (length q) (c # cs) = q" | "str_includes cs q" by auto
    then show "\<exists>pre suf. c # cs = pre @ q @ suf"
    proof cases
      case 1
      with here obtain suf where "c # cs = [] @ q @ suf" by auto
      then show ?thesis by blast
    next
      case 2
      with Cons.IH obtain pre suf where "cs = pre @ q @ suf" by blast
      then have "c # cs = (c # pre) @ q @ suf" by simp
      then show ?thesis by blast
    qed
  next
    assume "\<exists>pre suf. c # cs = pre @ q @ suf"
    then obtain pre suf where e: "c # cs = pre @ q @ suf" by blast
    show "str_includes (c # cs) q"
    proof (cases pre)
      case Nil
      with e have "\<exists>suf. c # cs = q @ suf" by auto
      with here have "take (length q) (c # cs) = q" by blast
      then show ?thesis by simp
    next
      case (Cons a pre')
      with e have "cs = pre' @ q @ suf" by simp
      with Cons.IH show ?thesis by auto
    qed
  qed
qed

lemma str_includes_filter:
  "str_includes t q \<Longrightarrow> str_includes (filter P t) (filter P q)"
  unfolding str_includes_iff by (metis filter_append)

lemma lenient_submitted:
  "submittedQuery (lenient_runSearch fetch st) \<noteq> [] \<Longrightarrow>
   trim (submittedQuery (lenient_runSearch fetch st)) \<noteq> []"
  by (auto simp: lenient_runSearch_def Let_def trim_idem split: if_splits sum.splits)

lemma toLowerCase_Nil: "toLowerCase tbl [] = []"
  by (simp add: toLowerCase_def)

lemma toLowerCase_first:
  assumes "u \<noteq> []"
  shows "toLowerCase tbl u = tbl u 0 @ concat (map (tbl u) [1..<length u])"
proof -
  from assms have "[0..<length u] = 0 # [1..<length u]"
    by (simp add: upt_conv_Cons)
  then show ?thesis by (simp add: toLowerCase_def)
qed

lemma toLowerCase_final:
  assumes "u \<noteq> []"
  shows "toLowerCase tbl u = concat (map (tbl u) [0..<length u - 1]) @ tbl u (length u - 1)"
proof -
  from assms obtain n where n: "length u = Suc n" by (cases u) auto
  then show ?thesis by (simp add: toLowerCase_def)
qed

lemma lower_keeps_head:
  assumes "unicodeLower tbl" and "u \<noteq> []" and "\<not> isWhiteSpace (hd u)"
  shows "toLowerCase tbl u \<noteq> [] \<and> \<not> isWhiteSpace (hd (toLowerCase tbl u))"
proof -
  from assms(2) have l: "0 < length u" and h: "hd u = u ! 0"
    by (simp_all add: hd_conv_nth)
  with assms(1,3) have p: "tbl u 0 \<noteq> []" "\<forall>c\<in>set (tbl u 0). \<not> isWhiteSpace c"
    unfolding unicodeLower_def by auto
  then have "hd (tbl u 0) \<in> set (tbl u 0)" by simp
  with p show ?thesis
    by (simp add: toLowerCase_first [OF assms(2)])
qed

lemma lower_keeps_last:
  assumes "unicodeLower tbl" and "u \<noteq> []" and "\<not> isWhiteSpace (last u)"
  shows "toLowerCase tbl u \<noteq> [] \<and> \<not> isWhiteSpace (last (toLowerCase tbl u))"
proof -
  from assms(2) have l: "length u - 1 < length u" and h: "last u = u ! (length u - 1)"
    by (simp_all add: last_conv_nth)
  with assms(1,3) have p: "tbl u (length u - 1) \<noteq> []"
      "\<forall>c\<in>set (tbl u (length u - 1)). \<not> isWhiteSpace c"
    unfolding unicodeLower_def by auto
  then have "last (tbl u (length u - 1)) \<in> set (tbl u (length u - 1))" by simp
  with p show ?thesis
    by (simp add: toLowerCase_final [OF assms(2)])
qed

lemma trim_ends:
  assumes "trim s \<noteq> []"
  shows "\<not> isWhiteSpace (hd (trim s)) \<and> \<not> isWhiteSpace (last (trim s))"
proof -
  from assms have "dropWhile isWhiteSpace (trim s) \<noteq> []"
    unfolding trim_noLeadingWs .
  then have "\<not> isWhiteSpace (hd (dropWhile isWhiteSpace (trim s)))"
    by (rule hd_dropWhile)
  then have "\<not> isWhiteSpace (hd (trim s))"
    unfolding trim_noLeadingWs .
  moreover have "\<not> isWhiteSpace (last (trim s))"
    using trim_noTrailingWs [of s] assms by (simp add: noTrailingWs_def)
  ultimately show ?thesis by simp
qed

lemma lower_trim_eq_Nil:
  assumes "unicodeLower tbl"
  shows "toLowerCase tbl (trim s) = [] \<longleftrightarrow> trim s = []"
proof (cases "trim s = []")
  case True
  then show ?thesis by (simp add: toLowerCase_Nil)
next
  case False
  with lower_keeps_head [OF assms False] trim_ends [OF False] show ?thesis by simp
qed

lemma collapse_words:
  assumes "v = [] \<or> (\<not> isWhiteSpace (hd v) \<and> \<not> isWhiteSpace (last v))"
  shows "replaceWs [SPACE] v = joinSpace (wsWords v)"
proof (cases "v = []")
  case True
  then show ?thesis by (simp add: wsWords_all_ws)
next
  case False
  with assms have e: "\<not> isWhiteSpace (hd v)" "\<not> isWhiteSpace (last v)" by simp_all
  from False e(1) have "dropWhile isWhiteSpace v = v" by (cases v) simp_all
  moreover from e(2) have "noTrailingWs v" by (simp add: noTrailingWs_def)
  ultimately show ?thesis using replaceWs_words [of v] by simp
qed

lemma normalizeText_collapsed:
  assumes "unicodeLower tbl"
  shows "normalizeText tbl s = collapsedForm tbl s"
proof -
  let ?v = "toLowerCase tbl (trim s)"
  have "?v = [] \<or> (\<not> isWhiteSpace (hd ?v) \<and> \<not> isWhiteSpace (last ?v))"
  proof (cases "trim s = []")
    case True
    then show ?thesis by (simp add: toLowerCase_Nil)
  next
    case False
    with lower_keeps_head [OF assms False] lower_keeps_last [OF assms False]
      trim_ends [OF False]
    show ?thesis by simp
  qed
  then show ?thesis
    by (simp add: normalizeText_def collapsedForm_def collapse_words)
qed

lemma normalizeBase_normalizeText: "normalizeBase tbl s = normalizeText tbl s"
  by (simp add: normalizeBase_def normalizeText_def)

lemma normalizeText_eq_Nil:
  "unicodeLower tbl \<Longrightarrow> normalizeText tbl q = [] \<longleftrightarrow> trim q = []"
  by (simp add: normalizeText_def replaceWs_eq_Nil lower_trim_eq_Nil)

lemma normalizeText_empty: "normalizeText tbl [] = []"
  by (simp add: normalizeText_def trim_def toLowerCase_Nil)

lemma filter_replaceWs_space:
  "filter (\<lambda>c. \<not> isWhiteSpace c) (replaceWs [SPACE] v) = filter (\<lambda>c. \<not> isWhiteSpace c) v"
proof (induction "[SPACE] :: jsstring" v rule: replaceWs.induct)
  case 1
  show ?case by simp
next
  case (2 c cs)
  have sp: "isWhiteSpace SPACE" by (simp add: isWhiteSpace_def)
  show ?case
  proof (cases "isWhiteSpace c")
    case True
    with 2 sp show ?thesis by (simp add: filter_dropWhile_ws)
  next
    case False
    with 2 show ?thesis by simp
  qed
qed

lemma concat_wsWords: "concat (wsWords v) = filter (\<lambda>c. \<not> isWhiteSpace c) v"
proof (induction v rule: wsWords.induct)
  case (1 s)
  let ?s' = "dropWhile isWhiteSpace s"
  let ?w = "takeWhile (\<lambda>c. \<not> isWhiteSpace c) ?s'"
  let ?rest = "dropWhile (\<lambda>c. \<not> isWhiteSpace c) ?s'"
  show ?case
  proof (cases "?s' = []")
    case True
    then have "wsWords s = []" by (subst wsWords.simps) simp
    moreover from True have "filter (\<lambda>c. \<not> isWhiteSpace c) s = []"
      by (simp add: filter_empty_conv)
    ultimately show ?thesis by simp
  next
    case False
    have ws: "wsWords s = ?w # wsWords ?rest"
      using False by (subst wsWords.simps) (simp add: Let_def del: dropWhile_eq_Nil_conv)
    have "filter (\<lambda>c. \<not> isWhiteSpace c) s = filter (\<lambda>c. \<not> isWhiteSpace c) ?s'"
      by (simp only: filter_dropWhile_ws)
    also have "\<dots> = filter (\<lambda>c. \<not> isWhiteSpace c) (?w @ ?rest)"
      by simp
    also have "\<dots> = filter (\<lambda>c. \<not> isWhiteSpace c) ?w @ filter (\<lambda>c. \<not> isWhiteSpace c) ?rest"
      by (rule filter_append)
    also have "filter (\<lambda>c. \<not> isWhiteSpace c) ?w = ?w"
      by (rule filter_True) (auto dest: set_takeWhileD)
    also have "filter (\<lambda>c. \<not> isWhiteSpace c) ?rest = concat (wsWords ?rest)"
      using "1.IH" [OF refl False] by simp
    finally show ?thesis by (simp only: ws concat.simps)
  qed
qed

lemma normalizeNoSpace_stripped: "normalizeNoSpace tbl s = strippedForm tbl s"
  by (simp add: normalizeNoSpace_def normalizeBase_def strippedForm_def replaceWs_empty
      filter_replaceWs_space concat_wsWords)

lemma normalizeNoSpace_filter:
  "normalizeNoSpace tbl s = filter (\<lambda>c. \<not> isWhiteSpace c) (normalizeBase tbl s)"
  by (simp add: normalizeNoSpace_def replaceWs_empty)

lemma str_includes_occursIn: "str_includes t q = occursIn q t"
  by (simp add: str_includes_iff occursIn_def)

lemma fieldOf_fieldValue: "fieldOf f b = fieldValue f b"
  by (cases f) (simp_all add: fieldValue_def)

lemma nospace_subsumes:
  "str_includes (normalizeBase tbl t) (normalizeBase tbl q) \<Longrightarrow>
   str_includes (normalizeNoSpace tbl t) (normalizeNoSpace tbl q)"
  by (simp add: normalizeNoSpace_filter str_includes_filter)

lemma filtered_spec:
  assumes "unicodeLower tbl" and "trim (submittedQuery st) \<noteq> []"
  shows "filtered tbl st =
     filter (\<lambda>b. occursIn (collapsedForm tbl (submittedQuery st))
                          (collapsedForm tbl (fieldValue (selectedField st) b)))
            (books st)"
proof -
  have "normalizeText tbl (submittedQuery st) \<noteq> []"
    using assms by (simp add: normalizeText_eq_Nil)
  then have "filtered tbl st =
     filter (\<lambda>b. str_includes (normalizeText tbl (fieldOf (selectedField st) b))
                               (normalizeText tbl (submittedQuery st)))
            (books st)"
    by (simp add: filtered_def Let_def)
  then show ?thesis
    by (simp add: normalizeText_collapsed [OF assms(1)] str_includes_occursIn
        fieldOf_fieldValue)
qed

lemma lenient_filtered_spec:
  assumes "unicodeLower tbl" and "trim (submittedQuery st) \<noteq> []"
  shows "lenient_filtered tbl st =
     filter (\<lambda>b. occursIn (collapsedForm tbl (submittedQuery st))
                          (collapsedForm tbl (fieldValue (selectedField st) b))
               \<or> occursIn (strippedForm tbl (submittedQuery st))
                           (strippedForm tbl (fieldValue (selectedField st) b)))
            (if site st = [] then []
             else case cache st (site st) of None \<Rightarrow> [] | Some bs \<Rightarrow> bs)"
proof -
  have "normalizeBase tbl (submittedQuery st) \<noteq> []"
    using assms by (simp add: normalizeBase_normalizeText normalizeText_eq_Nil)
  then have "lenient_filtered tbl st =
     filter (\<lambda>b. str_includes (normalizeBase tbl (fieldOf (selectedField st) b))
                               (normalizeBase tbl (submittedQuery st))
               \<or> str_includes (normalizeNoSpace tbl (fieldOf (selectedField st) b))
                               (normalizeNoSpace tbl (submittedQuery st)))
            (lenient_books st)"
    by (simp add: lenient_filtered_def Let_def)
  then show ?thesis
    by (simp add: normalizeBase_normalizeText normalizeText_collapsed [OF assms(1)]
        normalizeNoSpace_stripped str_includes_occursIn fieldOf_fieldValue lenient_books_def)
qed

lemma ws_unat:
  "isWhiteSpace c =
     (unat c \<in> {9, 10, 11, 12, 13, 32, 160, 5760, 8232, 8233, 8239, 8287, 12288, 65279}
      \<or> (8192 \<le> unat c \<and> unat c \<le> 8202))"
  by (simp add: isWhiteSpace_def word_le_nat_alt word_unat_eq_iff)

lemma asciiLower_unat:
  "unat (asciiLowerUnit c) = (if 65 \<le> unat c \<and> unat c \<le> 90 then unat c + 32 else unat c)"
  by (simp add: asciiLowerUnit_def word_le_nat_alt word_unat_eq_iff unat_word_ariths)

lemma isWhiteSpace_asciiLowerUnit: "isWhiteSpace (asciiLowerUnit c) = isWhiteSpace c"
  unfolding ws_unat asciiLower_unat by (simp split: if_splits)

lemma asciiLowerUnit_ws: "isWhiteSpace c \<Longrightarrow> asciiLowerUnit c = c"
  unfolding ws_unat by (auto simp: asciiLowerUnit_def word_le_nat_alt)

lemma unicodeLower_asciiTable: "unicodeLower asciiTable"
  by (simp add: unicodeLower_def asciiTable_def isWhiteSpace_asciiLowerUnit asciiLowerUnit_ws)

lemma concat_singletons: "concat (map (\<lambda>i. [g i]) xs) = map g xs"
  by (induction xs) simp_all

lemma lower_ascii:
  assumes "unicodeLower tbl" and "list_all (\<lambda>c. c < 0x80) s"
  shows "toLowerCase tbl s = map asciiLowerUnit s"
proof -
  have eq: "map (tbl s) [0..<length s] = map (\<lambda>i. [asciiLowerUnit (s ! i)]) [0..<length s]"
    using assms unfolding unicodeLower_def by (auto simp: list_all_length)
  have "toLowerCase tbl s = map (\<lambda>i. asciiLowerUnit (s ! i)) [0..<length s]"
    unfolding toLowerCase_def eq by (rule concat_singletons)
  also have "\<dots> = map asciiLowerUnit (map ((!) s) [0..<length s])"
    by simp
  also have "\<dots> = map asciiLowerUnit s"
    by (simp only: map_nth)
  finally show ?thesis .
qed

lemma toLowerCase_asciiTable: "toLowerCase asciiTable s = map asciiLowerUnit s"
proof -
  have "toLowerCase asciiTable s = map (\<lambda>i. asciiLowerUnit (s ! i)) [0..<length s]"
    by (simp add: toLowerCase_def asciiTable_def [abs_def] concat_singletons)
  also have "\<dots> = map asciiLowerUnit (map ((!) s) [0..<length s])"
    by simp
  also have "\<dots> = map asciiLowerUnit s"
    by (simp only: map_nth)
  finally show ?thesis .
qed

lemma trim_spec:
  "\<exists>pre suf. s = pre @ trim s @ suf \<and> list_all isWhiteSpace pre \<and> list_all isWhiteSpace suf"
proof -
  let ?l = "dropWhile isWhiteSpace s"
  let ?suf = "rev (takeWhile isWhiteSpace (rev ?l))"
  have "?l = trim s @ ?suf"
    unfolding trim_def by (rule rtrim_decomp)
  then have "takeWhile isWhiteSpace s @ ?l = takeWhile isWhiteSpace s @ trim s @ ?suf"
    by (rule arg_cong)
  then have "s = takeWhile isWhiteSpace s @ trim s @ ?suf"
    by (simp only: takeWhile_dropWhile_id)
  moreover have "list_all isWhiteSpace (takeWhile isWhiteSpace s)"
    by (auto simp: list_all_iff dest: set_takeWhileD)
  moreover have "list_all isWhiteSpace ?suf"
    by (auto simp: list_all_iff dest: set_takeWhileD)
  ultimately show ?thesis by blast
qed

lemmas eval_defs = js_def trim_def isWhiteSpace_def asciiLowerUnit_def
  normalizeText_def normalizeBase_def normalizeNoSpace_def

lemma ex_norm:
  assumes "unicodeLower tbl"
  shows "normalizeText tbl (js '' foo   bar '') = js ''foo bar''
         \<and> normalizeText tbl (js ''FOO BAR'') = js ''foo bar''
         \<and> normalizeNoSpace tbl (js ''Foo  Bar'') = js ''foobar''"
  by (simp add: eval_defs lower_ascii [OF assms])

lemma ex_strict:
  assumes "unicodeLower tbl"
  shows "filtered tbl (runSearch strict_example) = [book_FOO]
         \<and> filtered tbl (runSearch (typed (js ''fob''))) = []
         \<and> filtered tbl (runSearch (typed (js ''lee''))) = []
         \<and> filtered tbl (runSearch ((typed (js ''lee''))\<lparr>selectedField := Author\<rparr>)) = [book_FOO]"
  by (simp add: filtered_def runSearch_def strict_example_def typed_def book_FOO_def Let_def
      eval_defs lower_ascii [OF assms])

lemma ex_lenient:
  assumes "unicodeLower tbl"
  shows "lenient_filtered tbl lenient_example = [book_foo]
         \<and> lenient_filtered tbl (lenient_example\<lparr>submittedQuery := js ''fox''\<rparr>) = []
         \<and> lenient_filtered tbl (lenient_example\<lparr>submittedQuery := js ''KIM''\<rparr>) = []
         \<and> lenient_filtered tbl
              (lenient_example\<lparr>submittedQuery := js ''KIM'', selectedField := Author\<rparr>)
            = [book_foo]
         \<and> lenient_filtered tbl (lenient_example\<lparr>site := js ''3''\<rparr>) = []"
  by (simp add: lenient_filtered_def lenient_books_def lenient_example_def book_foo_def Let_def
      eval_defs lower_ascii [OF assms])

lemma ex_forms:
  assumes "unicodeLower tbl"
  shows "collapsedForm tbl (js ''foo bar'') = js ''foo bar''
         \<and> collapsedForm tbl (js ''foobar'') = js ''foobar''
         \<and> strippedForm tbl (js ''foo bar'') = js ''foobar''
         \<and> strippedForm tbl (js ''foobar'') = js ''foobar''
         \<and> collapsedForm tbl (js '' foo   bar '') = js ''foo bar''
         \<and> collapsedForm tbl (js ''FOO BAR'') = js ''foo bar''"
  using ex_norm [OF assms]
  by (simp add: normalizeText_collapsed [OF assms, symmetric]
      normalizeNoSpace_stripped [symmetric] eval_defs lower_ascii [OF assms])

lemma ex_occurs:
  "\<not> occursIn (js ''foobar'') (js ''foo bar'') \<and> occursIn (js ''foobar'') (js ''foobar'')
   \<and> occursIn (js ''foo bar'') (js ''foo bar'')"
  by (simp add: str_includes_occursIn [symmetric] js_def)

section \<open>Pagination\<close>

lemma ceil_page_size: "\<lceil>real n / real PAGE_SIZE\<rceil> = int ((n + 9) div 10)"
proof -
  have "\<lceil>real n / real PAGE_SIZE\<rceil> = \<lceil>of_int (int n) / (of_int 10 :: real)\<rceil>"
    by (simp add: PAGE_SIZE_def)
  also have "\<dots> = - (- int n div 10)"
    by (rule ceiling_divide_eq_div)
  also have "\<dots> = int ((n + 9) div 10)"
    by (simp add: zdiv_int)
  finally show ?thesis .
qed

lemma totalPages_div: "totalPages n = max 1 (int ((n + 9) div 10))"
  by (simp add: totalPages_def ceil_page_size)

lemma safePage_bounds: "1 \<le> safePage page n \<and> safePage page n \<le> totalPages n"
  by (simp add: safePage_def totalPages_def)

lemma array_slice_window:
  assumes "0 \<le> a"
  shows "array_slice xs a (a + int n) = take n (drop (nat a) xs)"
proof (cases "a \<le> int (length xs)")
  case True
  with assms have "take (nat (min (a + int n) (int (length xs)) - a)) (drop (nat a) xs)
      = take n (drop (nat a) xs)"
    by (intro take_all_iff[THEN iffD2] nth_equalityI) (auto simp: min_def)
  with True assms show ?thesis
    by (simp add: array_slice_def Let_def min_def)
next
  case False
  with assms show ?thesis
    by (simp add: array_slice_def Let_def min_def)
qed

lemma pageItems_take_drop:
  "pageItems results page =
     take PAGE_SIZE (drop (nat ((safePage page (length results) - 1) * int PAGE_SIZE)) results)"
proof -
  have "0 \<le> (safePage page (length results) - 1) * int PAGE_SIZE"
    using safePage_bounds [of page "length results"] by simp
  then show ?thesis
    by (simp add: pageItems_def Let_def array_slice_window)
qed

text \<open>
  C10. For every result list and every requested page number, the number of pages is
  \<open>max 1 (ceiling (count / 10))\<close>; the shown page is the requested one clamped into
  \<open>1 .. totalPages\<close> (no request is an error: the functions are total); the shown items
  are the results from index \<open>(page - 1) * 10\<close> up to, not including, index \<open>page * 10\<close>.
  With 23 results there are 3 pages, and the requests for page 0 and for page 99 show
  pages 1 and 3.
\<close>

theorem C10_pagination:
  "totalPages (length results) = max 1 \<lceil>real (length results) / 10\<rceil>
   \<and> safePage page (length results) =
       (if page < 1 then 1
        else if totalPages (length results) < page then totalPages (length results)
        else page)
   \<and> 1 \<le> safePage page (length results)
   \<and> safePage page (length results) \<le> totalPages (length results)
   \<and> pageItems results page =
       take (nat (safePage page (length results) * 10)
               - nat ((safePage page (length results) - 1) * 10))
            (drop (nat ((safePage page (length results) - 1) * 10)) results)
   \<and> totalPages 23 = 3 \<and> safePage 0 23 = 1 \<and> safePage 99 23 = 3"
proof -
  let ?sp = "safePage page (length results)"
  have b: "1 \<le> ?sp \<and> ?sp \<le> totalPages (length results)"
    by (rule safePage_bounds)
  have tp: "totalPages (length results) = max 1 \<lceil>real (length results) / 10\<rceil>"
    by (simp add: totalPages_def PAGE_SIZE_def)
  have clamp: "?sp = (if page < 1 then 1
        else if totalPages (length results) < page then totalPages (length results)
        else page)"
    using b by (auto simp: safePage_def)
  from b have "1 \<le> ?sp" by simp
  then have "nat (?sp * 10) - nat ((?sp - 1) * 10) = 10"
    by (simp add: algebra_simps)
  then have items: "pageItems results page =
       take (nat (?sp * 10) - nat ((?sp - 1) * 10)) (drop (nat ((?sp - 1) * 10)) results)"
    by (simp add: pageItems_take_drop PAGE_SIZE_def)
  have ex: "totalPages 23 = 3 \<and> safePage 0 23 = 1 \<and> safePage 99 23 = 3"
    by (simp add: totalPages_div safePage_def)
  from tp clamp b items ex show ?thesis by blast
qed

section \<open>Header normalisation\<close>

text \<open>
  C8. For every header cell, normalizeHeader yields exactly the code units of the cell
  that are not white space, in their order: a leading byte-order mark is dropped, leading
  and trailing white space is trimmed, and white space inside the cell is removed, not
  collapsed to one space. The cell \<open>" Title Name "\<close> becomes the key \<open>"TitleName"\<close>.
\<close>

theorem C8_normalizeHeader:
  "normalizeHeader h = filter (\<lambda>c. \<not> isWhiteSpace c) h
   \<and> normalizeHeader (BOM # h) = normalizeHeader h
   \<and> normalizeHeader (trim h) = normalizeHeader h
   \<and> normalizeHeader (js '' Title Name '') = js ''TitleName''"
proof -
  have eq: "normalizeHeader s = filter (\<lambda>c. \<not> isWhiteSpace c) s" for s
    by (simp add: normalizeHeader_def replaceWs_empty filter_trim filter_stripBom)
  have bom: "normalizeHeader (BOM # h) = normalizeHeader h"
    by (simp add: eq isWhiteSpace_def)
  have tr: "normalizeHeader (trim h) = normalizeHeader h"
    by (simp add: eq filter_trim)
  have ex: "normalizeHeader (js '' Title Name '') = js ''TitleName''"
    by (simp add: eq js_def isWhiteSpace_def)
  from eq bom tr ex show ?thesis by blast
qed

section \<open>The parser\<close>

lemma endRow_shift: "endRow (R @ rs) r f = R @ endRow rs r f"
  by (simp add: endRow_def)

lemma endRow_fresh: "endRow rs [] [] = rs"
  by (simp add: endRow_def someNonBlank_def trim_def)

lemma nextIs_append: "nextIs c (xs @ ys) = (if xs = [] then nextIs c ys else nextIs c xs)"
  by (cases xs) (simp_all add: nextIs_def)

lemma nextIs_Cons: "nextIs c (d # ys) = (d = c)"
  by (simp add: nextIs_def)

lemma nextIs_Nil: "nextIs c [] = False"
  by (simp add: nextIs_def)

lemma scan_quoted_plain:
  "DQUOTE \<notin> set body \<Longrightarrow> scan (body @ rest) rs r f True = scan rest rs r (f @ body) True"
  by (induction body arbitrary: f) auto

lemma scan_rows_shift:
  "rows (scan t (R @ rs) r f q) = R @ rows (scan t rs r f q)
   \<and> row (scan t (R @ rs) r f q) = row (scan t rs r f q)
   \<and> field (scan t (R @ rs) r f q) = field (scan t rs r f q)
   \<and> inQuotes (scan t (R @ rs) r f q) = inQuotes (scan t rs r f q)"
  by (induction t rs r f q rule: scan.induct) (auto simp: endRow_shift)

lemma scan_escaped:
  "\<not> nextIs DQUOTE rest \<Longrightarrow>
   scan (concat (map (\<lambda>c. if c = DQUOTE then [DQUOTE, DQUOTE] else [c]) body) @ DQUOTE # rest)
        rs r f True
   = scan rest rs r (f @ body) False"
  by (induction body arbitrary: f) (auto simp: nextIs_Cons)

lemma scan_quoted_field:
  "\<not> nextIs DQUOTE rest \<Longrightarrow>
   scan (quoted body @ rest) rs r f False = scan rest rs r (f @ body) False"
  using scan_escaped [of rest body rs r f] by (simp add: quoted_def)

lemma scan_unquoted_plain:
  "plain body \<Longrightarrow> scan (body @ rest) rs r f False = scan rest rs r (f @ body) False"
  unfolding plain_def by (induction body arbitrary: f) auto

lemma scan_csvField:
  "\<not> nextIs DQUOTE rest \<Longrightarrow>
   scan (csvField x @ rest) rs r f False = scan rest rs r (f @ x) False"
  by (simp add: csvField_def scan_unquoted_plain scan_quoted_field)

lemma scan_csvLine:
  "scan (csvLine (x # xs)) rs r [] False =
     \<lparr>rows = rs, row = r @ butlast (x # xs), field = last (x # xs), inQuotes = False\<rparr>"
proof (induction xs arbitrary: x r)
  case Nil
  show ?case using scan_csvField [of "[]" x rs r "[]"] by (simp add: nextIs_Nil)
next
  case (Cons y ys)
  have "scan (csvLine (x # y # ys)) rs r [] False
      = scan (COMMA # csvLine (y # ys)) rs r x False"
    using scan_csvField [of "COMMA # csvLine (y # ys)" x rs r "[]"]
    by (simp add: nextIs_Cons)
  also have "\<dots> = scan (csvLine (y # ys)) rs (r @ [x]) [] False"
    by simp
  finally show ?case by (simp add: Cons.IH)
qed

lemma parseCSV_csvLine:
  "fs \<noteq> [] \<Longrightarrow>
   parseCSV (csvLine fs) = (if someNonBlank fs then [fs] else [])"
  by (cases fs) (simp_all add: parseCSV_def scan_csvLine endRow_def del: csvLine.simps)

lemma scan_line_LF:
  "\<not> inQuotes (scan l1 rs r f q) \<Longrightarrow>
   scan (l1 @ LF # l2) rs r f q =
     (let p = scan l1 rs r f q in scan l2 (endRow (rows p) (row p) (field p)) [] [] False)"
  by (induction l1 rs r f q rule: scan.induct)
     (auto simp: nextIs_append nextIs_Cons nextIs_Nil endRow_fresh Let_def)

lemma scan_line_CRLF:
  "\<not> inQuotes (scan l1 rs r f q) \<Longrightarrow>
   scan (l1 @ CR # LF # l2) rs r f q =
     (let p = scan l1 rs r f q in scan l2 (endRow (rows p) (row p) (field p)) [] [] False)"
  by (induction l1 rs r f q rule: scan.induct)
     (auto simp: nextIs_append nextIs_Cons nextIs_Nil endRow_fresh Let_def)

lemma scan_line_CR:
  "\<not> inQuotes (scan l1 rs r f q) \<Longrightarrow> \<not> nextIs LF l2 \<Longrightarrow>
   scan (l1 @ CR # l2) rs r f q =
     (let p = scan l1 rs r f q in scan l2 (endRow (rows p) (row p) (field p)) [] [] False)"
  by (induction l1 rs r f q rule: scan.induct)
     (auto simp: nextIs_append nextIs_Cons nextIs_Nil endRow_fresh Let_def)


lemma all_dropWhile_ws:
  "(\<forall>c\<in>set (dropWhile isWhiteSpace s). isWhiteSpace c) \<longleftrightarrow> (\<forall>c\<in>set s. isWhiteSpace c)"
proof
  assume a: "\<forall>c\<in>set (dropWhile isWhiteSpace s). isWhiteSpace c"
  have "dropWhile isWhiteSpace s = []"
  proof (rule ccontr)
    assume n: "dropWhile isWhiteSpace s \<noteq> []"
    then have "\<not> isWhiteSpace (hd (dropWhile isWhiteSpace s))" by (rule hd_dropWhile)
    moreover from n have "hd (dropWhile isWhiteSpace s) \<in> set (dropWhile isWhiteSpace s)"
      by (rule hd_in_set)
    ultimately show False using a by blast
  qed
  then show "\<forall>c\<in>set s. isWhiteSpace c" by simp
next
  assume "\<forall>c\<in>set s. isWhiteSpace c"
  then show "\<forall>c\<in>set (dropWhile isWhiteSpace s). isWhiteSpace c"
    by (blast dest: set_dropWhileD)
qed

lemma trim_eq_Nil: "trim s = [] \<longleftrightarrow> (\<forall>c\<in>set s. isWhiteSpace c)"
  by (simp add: trim_def all_dropWhile_ws)

lemma someNonBlank_iff:
  "someNonBlank r \<longleftrightarrow> (\<exists>v\<in>set r. \<exists>c\<in>set v. \<not> isWhiteSpace c)"
  by (simp add: someNonBlank_def list_ex_iff trim_eq_Nil)

lemma scan_blank:
  "\<forall>c\<in>set t. c = COMMA \<or> isWhiteSpace c \<Longrightarrow> \<not> q \<Longrightarrow> \<not> someNonBlank (r @ [f]) \<Longrightarrow>
   rows (scan t rs r f q) = rs
   \<and> \<not> someNonBlank (row (scan t rs r f q) @ [field (scan t rs r f q)])
   \<and> \<not> inQuotes (scan t rs r f q)"
proof (induction t rs r f q rule: scan.induct)
  case (1 rs r f q)
  then show ?case by simp
next
  case (2 ch rest rs r f q)
  have nq: "ch \<noteq> DQUOTE"
    using "2.prems"(1) by (auto simp: isWhiteSpace_def)
  have rest: "\<forall>c\<in>set rest. c = COMMA \<or> isWhiteSpace c"
    using "2.prems"(1) by simp
  have tl: "\<forall>c\<in>set (tl rest). c = COMMA \<or> isWhiteSpace c"
    using rest by (cases rest) simp_all
  have fresh: "\<not> someNonBlank ([] @ [[]])"
    by (simp add: someNonBlank_iff)
  have er: "endRow rs r f = rs"
    using "2.prems"(3) by (simp add: endRow_def)
  show ?case
  proof (cases "ch = COMMA")
    case True
    have "\<not> someNonBlank ((r @ [f]) @ [[]])"
      using "2.prems"(3) by (simp add: someNonBlank_iff)
    with "2.IH"(3) [OF nq _ rest "2.prems"(2)] True nq "2.prems"(2) show ?thesis
      by simp
  next
    case False
    note nc = this
    show ?thesis
    proof (cases "ch = LF \<or> ch = CR")
      case True
      with "2.IH"(4) [OF nq _ _ _ "2.prems"(2) fresh] nq nc "2.prems"(2) rest tl er
      show ?thesis by (auto split: if_splits)
    next
      case False
      have ws: "isWhiteSpace ch"
        using "2.prems"(1) nc by simp
      have "\<not> someNonBlank (r @ [f @ [ch]])"
        using "2.prems"(3) ws by (auto simp: someNonBlank_iff)
      with "2.IH"(5) [OF nq _ _ rest "2.prems"(2)] nq nc False "2.prems"(2)
      show ?thesis by simp
    qed
  qed
qed

lemma parseCSV_blank:
  "\<forall>c\<in>set t. c = COMMA \<or> isWhiteSpace c \<Longrightarrow> parseCSV t = []"
  using scan_blank [of t False "[]" "[]" "[]"]
  by (simp add: parseCSV_def endRow_def Let_def someNonBlank_iff)

lemma parseCSV_after_row:
  "(let p = scan l2 R [] [] False in endRow (rows p) (row p) (field p)) = R @ parseCSV l2"
  using scan_rows_shift [of l2 R "[]" "[]" "[]" False]
  by (simp add: parseCSV_def Let_def endRow_shift)

lemma parseCSV_split_LF:
  assumes "quotesClosed l1"
  shows "parseCSV (l1 @ LF # l2) = parseCSV l1 @ parseCSV l2"
proof -
  have "parseCSV (l1 @ LF # l2)
      = (let p = scan l2 (parseCSV l1) [] [] False in endRow (rows p) (row p) (field p))"
    using assms by (simp add: parseCSV_def quotesClosed_def scan_line_LF Let_def)
  then show ?thesis by (simp only: parseCSV_after_row)
qed

lemma parseCSV_split_CRLF:
  assumes "quotesClosed l1"
  shows "parseCSV (l1 @ CR # LF # l2) = parseCSV l1 @ parseCSV l2"
proof -
  have "parseCSV (l1 @ CR # LF # l2)
      = (let p = scan l2 (parseCSV l1) [] [] False in endRow (rows p) (row p) (field p))"
    using assms by (simp add: parseCSV_def quotesClosed_def scan_line_CRLF Let_def)
  then show ?thesis by (simp only: parseCSV_after_row)
qed

lemma parseCSV_split_CR:
  assumes "quotesClosed l1" and "\<not> nextIs LF l2"
  shows "parseCSV (l1 @ CR # l2) = parseCSV l1 @ parseCSV l2"
proof -
  have "parseCSV (l1 @ CR # l2)
      = (let p = scan l2 (parseCSV l1) [] [] False in endRow (rows p) (row p) (field p))"
    using assms by (simp add: parseCSV_def quotesClosed_def scan_line_CR Let_def)
  then show ?thesis by (simp only: parseCSV_after_row)
qed


lemma ex_doe:
  "parseCSV ([DQUOTE] @ js ''Doe, Jane'' @ [DQUOTE] @ js '',Title,Pub'')
     = [[js ''Doe, Jane'', js ''Title'', js ''Pub'']]"
  by (simp add: parseCSV_def js_def nextIs_def endRow_def someNonBlank_def trim_def
      isWhiteSpace_def)

lemma ex_doe_line:
  "csvLine [js ''Doe, Jane'', js ''Title'', js ''Pub'']
    = [DQUOTE] @ js ''Doe, Jane'' @ [DQUOTE] @ js '',Title,Pub''"
  by (simp add: csvField_def plain_def quoted_def js_def)

lemma ex_hi:
  "parseCSV ([DQUOTE] @ js ''He said '' @ [DQUOTE, DQUOTE] @ js ''hi'' @ [DQUOTE, DQUOTE, DQUOTE]
               @ js '',A,B'')
     = [[js ''He said '' @ [DQUOTE] @ js ''hi'' @ [DQUOTE], js ''A'', js ''B'']]"
  by (simp add: parseCSV_def js_def nextIs_def endRow_def someNonBlank_def trim_def
      isWhiteSpace_def)

lemma ex_crlf:
  "parseCSV (js ''a,b'' @ [CR, LF] @ js ''c,d'') = [[js ''a'', js ''b''], [js ''c'', js ''d'']]
   \<and> parseCSV (js ''a,b'' @ [LF] @ js ''c,d'') = [[js ''a'', js ''b''], [js ''c'', js ''d'']]
   \<and> parseCSV (js '', ,'') = []
   \<and> parseCSV (js ''a,b'' @ [LF] @ js '', ,'' @ [LF] @ js ''c,d'')
       = [[js ''a'', js ''b''], [js ''c'', js ''d'']]"
  by (simp add: parseCSV_def js_def nextIs_def endRow_def someNonBlank_def trim_def
      isWhiteSpace_def)

text \<open>
  C4. For every text, at every position of the scan: a double quote outside quotes opens
  a quoted part; inside quotes two double quotes in a row put one double quote into the
  field and the scan goes on behind both; a double quote inside quotes that is not
  followed by another one closes the quoted part; every other character inside quotes,
  a comma or a line terminator too, goes into the field. Hence every line written as
  \<open>csvLine fs\<close> parses back to the one row \<open>fs\<close> (to no row when all its fields are
  blank). The line \<open>"Doe, Jane",Title,Pub\<close> parses to the fields \<open>Doe, Jane\<close>, \<open>Title\<close>,
  \<open>Pub\<close>, and the first field of \<open>"He said ""hi""",A,B\<close> is \<open>He said "hi"\<close>.
\<close>

theorem C4_quoting:
  "scan (DQUOTE # rest) rs r f False = scan rest rs r f True
   \<and> scan (DQUOTE # DQUOTE # rest) rs r f True = scan rest rs r (f @ [DQUOTE]) True
   \<and> (\<not> nextIs DQUOTE rest \<longrightarrow> scan (DQUOTE # rest) rs r f True = scan rest rs r f False)
   \<and> (DQUOTE \<notin> set body \<longrightarrow>
        scan (body @ rest) rs r f True = scan rest rs r (f @ body) True)
   \<and> (fs \<noteq> [] \<longrightarrow> parseCSV (csvLine fs) = (if someNonBlank fs then [fs] else []))
   \<and> csvLine [js ''Doe, Jane'', js ''Title'', js ''Pub'']
       = [DQUOTE] @ js ''Doe, Jane'' @ [DQUOTE] @ js '',Title,Pub''
   \<and> parseCSV ([DQUOTE] @ js ''Doe, Jane'' @ [DQUOTE] @ js '',Title,Pub'')
       = [[js ''Doe, Jane'', js ''Title'', js ''Pub'']]
   \<and> parseCSV ([DQUOTE] @ js ''He said '' @ [DQUOTE, DQUOTE] @ js ''hi''
                 @ [DQUOTE, DQUOTE, DQUOTE] @ js '',A,B'')
       = [[js ''He said '' @ [DQUOTE] @ js ''hi'' @ [DQUOTE], js ''A'', js ''B'']]"
proof -
  have 1: "scan (DQUOTE # rest) rs r f False = scan rest rs r f True"
    by simp
  have 2: "scan (DQUOTE # DQUOTE # rest) rs r f True = scan rest rs r (f @ [DQUOTE]) True"
    by (simp add: nextIs_Cons)
  have 3: "\<not> nextIs DQUOTE rest \<longrightarrow> scan (DQUOTE # rest) rs r f True = scan rest rs r f False"
    by simp
  have 4: "DQUOTE \<notin> set body \<longrightarrow>
        scan (body @ rest) rs r f True = scan rest rs r (f @ body) True"
    by (simp add: scan_quoted_plain)
  have 5: "fs \<noteq> [] \<longrightarrow> parseCSV (csvLine fs) = (if someNonBlank fs then [fs] else [])"
    using parseCSV_csvLine by blast
  from 1 2 3 4 5 ex_doe_line ex_doe ex_hi show ?thesis by blast
qed

theorem C4_quoting_witness:
  "\<not> nextIs DQUOTE (js '',Title,Pub'')
   \<and> DQUOTE \<notin> set (js ''Jane'')
   \<and> [js ''Doe, Jane'', js ''Title'', js ''Pub''] \<noteq> []
   \<and> scan (DQUOTE # js '',Title,Pub'') [] [] (js ''Doe, '') True
       = scan (js '',Title,Pub'') [] [] (js ''Doe, '') False
   \<and> scan (js ''Jane'' @ js '',Title,Pub'') [] [] (js ''Doe, '') True
       = scan (js '',Title,Pub'') [] [] (js ''Doe, '' @ js ''Jane'') True
   \<and> parseCSV (csvLine [js ''Doe, Jane'', js ''Title'', js ''Pub''])
       = [[js ''Doe, Jane'', js ''Title'', js ''Pub'']]"
proof -
  have a: "\<not> nextIs DQUOTE (js '',Title,Pub'')"
    by (simp add: nextIs_def js_def)
  have b: "DQUOTE \<notin> set (js ''Jane'')"
    by (simp add: js_def)
  have c: "[js ''Doe, Jane'', js ''Title'', js ''Pub''] \<noteq> []"
    by simp
  have d: "someNonBlank [js ''Doe, Jane'', js ''Title'', js ''Pub'']"
    by (simp add: someNonBlank_def trim_def js_def isWhiteSpace_def)
  from a b c d
    C4_quoting [where rest = "js '',Title,Pub''" and rs = "[]" and r = "[]"
                  and f = "js ''Doe, ''" and body = "js ''Jane''"
                  and fs = "[js ''Doe, Jane'', js ''Title'', js ''Pub'']"]
  show ?thesis by (simp del: scan.simps csvLine.simps)
qed

text \<open>
  C5. For every text, outside quotes a line feed, a carriage return followed by a line
  feed (taken as one terminator) and a carriage return alone each end the row: the field
  is pushed and the row is added to the output unless each of its fields holds white
  space only. So a text splits at a terminator outside quotes into the rows before and
  the rows after it, the same for both kinds of terminator, and a line of commas and
  white space only adds no row. Both \<open>a,b\r\nc,d\<close> and \<open>a,b\nc,d\<close> parse to two rows of
  two fields, and the line \<open>, ,\<close> contributes no row.
\<close>

theorem C5_line_terminators:
  "scan (LF # rest) rs r f False = scan rest (endRow rs r f) [] [] False
   \<and> scan (CR # LF # rest) rs r f False = scan rest (endRow rs r f) [] [] False
   \<and> (\<not> nextIs LF rest \<longrightarrow>
        scan (CR # rest) rs r f False = scan rest (endRow rs r f) [] [] False)
   \<and> endRow rs r f =
        (if \<forall>v\<in>set (r @ [f]). \<forall>c\<in>set v. isWhiteSpace c then rs else rs @ [r @ [f]])
   \<and> (quotesClosed l1 \<longrightarrow>
        parseCSV (l1 @ CR # LF # l2) = parseCSV l1 @ parseCSV l2
        \<and> parseCSV (l1 @ LF # l2) = parseCSV l1 @ parseCSV l2)
   \<and> (quotesClosed l1 \<and> (\<forall>c\<in>set blank. c = COMMA \<or> isWhiteSpace c) \<longrightarrow>
        parseCSV (l1 @ LF # blank @ LF # l2) = parseCSV l1 @ parseCSV l2)
   \<and> parseCSV (js ''a,b'' @ [CR, LF] @ js ''c,d'') = [[js ''a'', js ''b''], [js ''c'', js ''d'']]
   \<and> parseCSV (js ''a,b'' @ [LF] @ js ''c,d'') = [[js ''a'', js ''b''], [js ''c'', js ''d'']]
   \<and> parseCSV (js '', ,'') = []
   \<and> parseCSV (js ''a,b'' @ [LF] @ js '', ,'' @ [LF] @ js ''c,d'')
       = [[js ''a'', js ''b''], [js ''c'', js ''d'']]"
proof -
  have 1: "scan (LF # rest) rs r f False = scan rest (endRow rs r f) [] [] False"
    by simp
  have 2: "scan (CR # LF # rest) rs r f False = scan rest (endRow rs r f) [] [] False"
    by (simp add: nextIs_Cons)
  have 3: "\<not> nextIs LF rest \<longrightarrow>
        scan (CR # rest) rs r f False = scan rest (endRow rs r f) [] [] False"
    by simp
  have 4: "endRow rs r f =
        (if \<forall>v\<in>set (r @ [f]). \<forall>c\<in>set v. isWhiteSpace c then rs else rs @ [r @ [f]])"
    unfolding endRow_def someNonBlank_iff by auto
  have 5: "quotesClosed l1 \<longrightarrow>
        parseCSV (l1 @ CR # LF # l2) = parseCSV l1 @ parseCSV l2
        \<and> parseCSV (l1 @ LF # l2) = parseCSV l1 @ parseCSV l2"
    by (simp add: parseCSV_split_CRLF parseCSV_split_LF)
  have 6: "quotesClosed l1 \<and> (\<forall>c\<in>set blank. c = COMMA \<or> isWhiteSpace c) \<longrightarrow>
        parseCSV (l1 @ LF # blank @ LF # l2) = parseCSV l1 @ parseCSV l2"
  proof
    assume a: "quotesClosed l1 \<and> (\<forall>c\<in>set blank. c = COMMA \<or> isWhiteSpace c)"
    then have "quotesClosed blank"
      using scan_blank [of blank False "[]" "[]" "[]"]
      by (simp add: quotesClosed_def someNonBlank_iff)
    then have "parseCSV (blank @ LF # l2) = parseCSV blank @ parseCSV l2"
      by (rule parseCSV_split_LF)
    with a show "parseCSV (l1 @ LF # blank @ LF # l2) = parseCSV l1 @ parseCSV l2"
      by (simp add: parseCSV_split_LF parseCSV_blank)
  qed
  from 1 2 3 4 5 6 ex_crlf show ?thesis by blast
qed

theorem C5_line_terminators_witness:
  "\<not> nextIs LF (js ''c,d'')
   \<and> quotesClosed (js ''a,b'')
   \<and> list_all (\<lambda>c. c = COMMA \<or> isWhiteSpace c) (js '', ,'')
   \<and> scan (CR # js ''c,d'') [] [js ''a''] (js ''b'') False
       = scan (js ''c,d'') [[js ''a'', js ''b'']] [] [] False
   \<and> parseCSV (js ''a,b'' @ CR # LF # js ''c,d'') = parseCSV (js ''a,b'') @ parseCSV (js ''c,d'')
   \<and> parseCSV (js ''a,b'' @ LF # js ''c,d'') = parseCSV (js ''a,b'') @ parseCSV (js ''c,d'')
   \<and> parseCSV (js ''a,b'' @ LF # js '', ,'' @ LF # js ''c,d'')
       = parseCSV (js ''a,b'') @ parseCSV (js ''c,d'')"
proof -
  have a: "\<not> nextIs LF (js ''c,d'')"
    by (simp add: nextIs_def js_def)
  have b: "quotesClosed (js ''a,b'')"
    by (simp add: quotesClosed_def js_def)
  have c: "\<forall>c\<in>set (js '', ,''). c = COMMA \<or> isWhiteSpace c"
    by (simp add: js_def isWhiteSpace_def)
  have c': "list_all (\<lambda>c. c = COMMA \<or> isWhiteSpace c) (js '', ,'')"
    by (simp add: js_def isWhiteSpace_def)
  have d: "endRow [] [js ''a''] (js ''b'') = [[js ''a'', js ''b'']]"
    by (simp add: endRow_def someNonBlank_def trim_def js_def isWhiteSpace_def)
  from a b c c' d
    C5_line_terminators [where rest = "js ''c,d''" and rs = "[]" and r = "[js ''a'']"
                           and f = "js ''b''" and ?l1.0 = "js ''a,b''" and ?l2.0 = "js ''c,d''"
                           and blank = "js '', ,''"]
  show ?thesis by simp
qed

section \<open>Search normalisation and matching\<close>

text \<open>
  C9. normalizeText (and normalizeBase, the same function in the other version) trims,
  lower-cases and collapses: \<open>trim\<close> cuts exactly the white space at both ends; the result
  is put in lower case by the case mapping of the engine (on Basic Latin: A to Z become a
  to z); and for every string the outcome is the words of that lower-cased string joined
  by single spaces. The filter applies this one normalisation to the submitted query and
  to the value of the selected field and keeps, in their order, the books whose normalised
  value contains the normalised query as a contiguous part. The query \<open>" foo   bar "\<close>
  matches the value \<open>"FOO BAR"\<close>; a query that does not occur, or occurs in another field
  only, matches nothing.
\<close>

theorem C9_normalizeText:
  "(\<exists>pre suf. s = pre @ trim s @ suf \<and> list_all isWhiteSpace pre \<and> list_all isWhiteSpace suf)
   \<and> (trim s = [] \<or> (\<not> isWhiteSpace (hd (trim s)) \<and> \<not> isWhiteSpace (last (trim s))))
   \<and> toLowerCase tbl u = concat (map (tbl u) [0..<length u])
   \<and> (unicodeLower tbl \<and> list_all (\<lambda>c. c < 0x80) u \<longrightarrow>
        toLowerCase tbl u = map (\<lambda>c. if 0x41 \<le> c \<and> c \<le> 0x5A then c + 0x20 else c) u)
   \<and> (unicodeLower tbl \<longrightarrow>
        normalizeText tbl s = joinSpace (wsWords (toLowerCase tbl (trim s)))
        \<and> normalizeBase tbl s = joinSpace (wsWords (toLowerCase tbl (trim s))))
   \<and> str_includes t q = (\<exists>pre suf. t = pre @ q @ suf)
   \<and> fieldOf Title b = b_title b \<and> fieldOf Author b = b_author b
   \<and> fieldOf Publisher b = b_publisher b
   \<and> (unicodeLower tbl \<and> trim (submittedQuery st) \<noteq> [] \<longrightarrow>
        filtered tbl st =
          filter (\<lambda>b. occursIn (collapsedForm tbl (submittedQuery st))
                               (collapsedForm tbl (fieldValue (selectedField st) b)))
                 (books st))
   \<and> (unicodeLower tbl \<longrightarrow>
        normalizeText tbl (js '' foo   bar '') = js ''foo bar''
        \<and> normalizeText tbl (js ''FOO BAR'') = js ''foo bar''
        \<and> filtered tbl (runSearch strict_example) = [book_FOO]
        \<and> filtered tbl (runSearch (typed (js ''fob''))) = []
        \<and> filtered tbl (runSearch (typed (js ''lee''))) = []
        \<and> filtered tbl (runSearch ((typed (js ''lee''))\<lparr>selectedField := Author\<rparr>))
            = [book_FOO])"
proof -
  have 1: "\<exists>pre suf. s = pre @ trim s @ suf \<and> list_all isWhiteSpace pre
             \<and> list_all isWhiteSpace suf"
    by (rule trim_spec)
  have 2: "trim s = [] \<or> (\<not> isWhiteSpace (hd (trim s)) \<and> \<not> isWhiteSpace (last (trim s)))"
    using trim_ends [of s] by blast
  have 3: "toLowerCase tbl u = concat (map (tbl u) [0..<length u])"
    by (simp add: toLowerCase_def)
  have 4: "unicodeLower tbl \<and> list_all (\<lambda>c. c < 0x80) u \<longrightarrow>
        toLowerCase tbl u = map (\<lambda>c. if 0x41 \<le> c \<and> c \<le> 0x5A then c + 0x20 else c) u"
    using lower_ascii [of tbl u] by (simp add: asciiLowerUnit_def [abs_def])
  have 5: "unicodeLower tbl \<longrightarrow>
        normalizeText tbl s = joinSpace (wsWords (toLowerCase tbl (trim s)))
        \<and> normalizeBase tbl s = joinSpace (wsWords (toLowerCase tbl (trim s)))"
    using normalizeText_collapsed [of tbl s]
    by (simp add: normalizeBase_normalizeText collapsedForm_def)
  have 6: "str_includes t q = (\<exists>pre suf. t = pre @ q @ suf)"
    by (rule str_includes_iff)
  have 7: "fieldOf Title b = b_title b \<and> fieldOf Author b = b_author b
           \<and> fieldOf Publisher b = b_publisher b"
    by simp
  have 8: "unicodeLower tbl \<and> trim (submittedQuery st) \<noteq> [] \<longrightarrow>
        filtered tbl st =
          filter (\<lambda>b. occursIn (collapsedForm tbl (submittedQuery st))
                               (collapsedForm tbl (fieldValue (selectedField st) b)))
                 (books st)"
    using filtered_spec [of tbl st] by blast
  have 9: "unicodeLower tbl \<longrightarrow>
        normalizeText tbl (js '' foo   bar '') = js ''foo bar''
        \<and> normalizeText tbl (js ''FOO BAR'') = js ''foo bar''
        \<and> filtered tbl (runSearch strict_example) = [book_FOO]
        \<and> filtered tbl (runSearch (typed (js ''fob''))) = []
        \<and> filtered tbl (runSearch (typed (js ''lee''))) = []
        \<and> filtered tbl (runSearch ((typed (js ''lee''))\<lparr>selectedField := Author\<rparr>))
            = [book_FOO]"
    using ex_norm [of tbl] ex_strict [of tbl] by blast
  from 1 2 3 4 5 6 7 8 9 show ?thesis by blast
qed

theorem C9_normalizeText_witness:
  "unicodeLower asciiTable
   \<and> list_all (\<lambda>c. c < 0x80) (js ''FOO BAR'')
   \<and> trim (submittedQuery (runSearch strict_example)) \<noteq> []
   \<and> toLowerCase asciiTable (js ''FOO BAR'') = js ''foo bar''
   \<and> normalizeText asciiTable (js '' foo   bar '') = js ''foo bar''
   \<and> filtered asciiTable (runSearch strict_example) = [book_FOO]
   \<and> filtered asciiTable (runSearch strict_example) =
       filter (\<lambda>b. occursIn (collapsedForm asciiTable (js ''foo   bar''))
                            (collapsedForm asciiTable (fieldValue Title b)))
              [book_FOO]"
proof -
  note t = C9_normalizeText [where tbl = asciiTable and u = "js ''FOO BAR''"
                               and st = "runSearch strict_example"
                               and s = "[]" and t = "[]" and q = "[]" and b = book_FOO]
  have a: "unicodeLower asciiTable"
    by (rule unicodeLower_asciiTable)
  have b: "list_all (\<lambda>c. c < 0x80) (js ''FOO BAR'')"
    by (simp add: js_def)
  have q: "submittedQuery (runSearch strict_example) = js ''foo   bar''
           \<and> selectedField (runSearch strict_example) = Title
           \<and> books (runSearch strict_example) = [book_FOO]"
    by (simp add: runSearch_def strict_example_def Let_def js_def trim_def isWhiteSpace_def)
  have c: "trim (submittedQuery (runSearch strict_example)) \<noteq> []"
    by (simp add: q js_def trim_def isWhiteSpace_def)
  from t a b
  have "toLowerCase asciiTable (js ''FOO BAR'')
          = map (\<lambda>c. if 0x41 \<le> c \<and> c \<le> 0x5A then c + 0x20 else c) (js ''FOO BAR'')"
    by blast
  then have d: "toLowerCase asciiTable (js ''FOO BAR'') = js ''foo bar''"
    by (simp add: js_def)
  from t a have e: "normalizeText asciiTable (js '' foo   bar '') = js ''foo bar''
                    \<and> filtered asciiTable (runSearch strict_example) = [book_FOO]"
    by blast
  from t a c
  have "filtered asciiTable (runSearch strict_example) =
          filter (\<lambda>b. occursIn (collapsedForm asciiTable (submittedQuery (runSearch strict_example)))
                               (collapsedForm asciiTable
                                  (fieldValue (selectedField (runSearch strict_example)) b)))
                 (books (runSearch strict_example))"
    by blast
  with q have f: "filtered asciiTable (runSearch strict_example) =
       filter (\<lambda>b. occursIn (collapsedForm asciiTable (js ''foo   bar''))
                            (collapsedForm asciiTable (fieldValue Title b)))
              [book_FOO]"
    by simp
  from a b c d e f show ?thesis by blast
qed

text \<open>
  C6. In the version that also compares without white space, normalizeBase yields the
  space-collapsed form (the words of the trimmed, lower-cased string joined by single
  spaces) and normalizeNoSpace the space-stripped form (the same words with nothing
  between them). For every state whose submitted query is not empty after trimming (a
  submitted query that is not empty never is, since runSearch stores it trimmed), the
  results are the books of the selected library, in their order, for which the collapsed
  value of the selected field contains the collapsed query or the stripped value contains
  the stripped query. The query \<open>"foobar"\<close> matches the value \<open>"foo bar"\<close>, by the second
  test and not by the first; a query that occurs in neither form, or in another field or
  another library only, matches nothing.
\<close>

theorem C6_lenient_match:
  "(unicodeLower tbl \<longrightarrow>
      normalizeBase tbl s = joinSpace (wsWords (toLowerCase tbl (trim s))))
   \<and> normalizeNoSpace tbl s = concat (wsWords (toLowerCase tbl (trim s)))
   \<and> str_includes t q = (\<exists>pre suf. t = pre @ q @ suf)
   \<and> fieldOf Title b = b_title b \<and> fieldOf Author b = b_author b
   \<and> fieldOf Publisher b = b_publisher b
   \<and> (unicodeLower tbl \<and> trim (submittedQuery st) \<noteq> [] \<longrightarrow>
        lenient_filtered tbl st =
          filter (\<lambda>b. occursIn (collapsedForm tbl (submittedQuery st))
                               (collapsedForm tbl (fieldValue (selectedField st) b))
                    \<or> occursIn (strippedForm tbl (submittedQuery st))
                                (strippedForm tbl (fieldValue (selectedField st) b)))
                 (if site st = [] then []
                  else case cache st (site st) of None \<Rightarrow> [] | Some bs \<Rightarrow> bs))
   \<and> (submittedQuery (lenient_runSearch fetch st) \<noteq> [] \<longrightarrow>
        trim (submittedQuery (lenient_runSearch fetch st)) \<noteq> [])
   \<and> (unicodeLower tbl \<longrightarrow>
        collapsedForm tbl (js ''foo bar'') = js ''foo bar''
        \<and> collapsedForm tbl (js ''foobar'') = js ''foobar''
        \<and> strippedForm tbl (js ''foo bar'') = js ''foobar''
        \<and> strippedForm tbl (js ''foobar'') = js ''foobar''
        \<and> \<not> occursIn (js ''foobar'') (js ''foo bar'')
        \<and> occursIn (js ''foobar'') (js ''foobar'')
        \<and> lenient_filtered tbl lenient_example = [book_foo]
        \<and> lenient_filtered tbl (lenient_example\<lparr>submittedQuery := js ''fox''\<rparr>) = []
        \<and> lenient_filtered tbl (lenient_example\<lparr>submittedQuery := js ''KIM''\<rparr>) = []
        \<and> lenient_filtered tbl
             (lenient_example\<lparr>submittedQuery := js ''KIM'', selectedField := Author\<rparr>)
           = [book_foo]
        \<and> lenient_filtered tbl (lenient_example\<lparr>site := js ''3''\<rparr>) = [])"
proof -
  have 1: "unicodeLower tbl \<longrightarrow>
      normalizeBase tbl s = joinSpace (wsWords (toLowerCase tbl (trim s)))"
    using normalizeText_collapsed [of tbl s]
    by (simp add: normalizeBase_normalizeText collapsedForm_def)
  have 2: "normalizeNoSpace tbl s = concat (wsWords (toLowerCase tbl (trim s)))"
    using normalizeNoSpace_stripped [of tbl s] by (simp add: strippedForm_def)
  have 3: "str_includes t q = (\<exists>pre suf. t = pre @ q @ suf)"
    by (rule str_includes_iff)
  have 4: "fieldOf Title b = b_title b \<and> fieldOf Author b = b_author b
           \<and> fieldOf Publisher b = b_publisher b"
    by simp
  have 5: "unicodeLower tbl \<and> trim (submittedQuery st) \<noteq> [] \<longrightarrow>
        lenient_filtered tbl st =
          filter (\<lambda>b. occursIn (collapsedForm tbl (submittedQuery st))
                               (collapsedForm tbl (fieldValue (selectedField st) b))
                    \<or> occursIn (strippedForm tbl (submittedQuery st))
                                (strippedForm tbl (fieldValue (selectedField st) b)))
                 (if site st = [] then []
                  else case cache st (site st) of None \<Rightarrow> [] | Some bs \<Rightarrow> bs)"
    using lenient_filtered_spec [of tbl st] by blast
  have 6: "submittedQuery (lenient_runSearch fetch st) \<noteq> [] \<longrightarrow>
        trim (submittedQuery (lenient_runSearch fetch st)) \<noteq> []"
    using lenient_submitted by blast
  have 7: "unicodeLower tbl \<longrightarrow>
        collapsedForm tbl (js ''foo bar'') = js ''foo bar''
        \<and> collapsedForm tbl (js ''foobar'') = js ''foobar''
        \<and> strippedForm tbl (js ''foo bar'') = js ''foobar''
        \<and> strippedForm tbl (js ''foobar'') = js ''foobar''
        \<and> \<not> occursIn (js ''foobar'') (js ''foo bar'')
        \<and> occursIn (js ''foobar'') (js ''foobar'')
        \<and> lenient_filtered tbl lenient_example = [book_foo]
        \<and> lenient_filtered tbl (lenient_example\<lparr>submittedQuery := js ''fox''\<rparr>) = []
        \<and> lenient_filtered tbl (lenient_example\<lparr>submittedQuery := js ''KIM''\<rparr>) = []
        \<and> lenient_filtered tbl
             (lenient_example\<lparr>submittedQuery := js ''KIM'', selectedField := Author\<rparr>)
           = [book_foo]
        \<and> lenient_filtered tbl (lenient_example\<lparr>site := js ''3''\<rparr>) = []"
    using ex_forms [of tbl] ex_occurs ex_lenient [of tbl] by blast
  from 1 2 3 4 5 6 7 show ?thesis by blast
qed

theorem C6_lenient_match_witness:
  "unicodeLower asciiTable
   \<and> trim (submittedQuery lenient_example) \<noteq> []
   \<and> normalizeBase asciiTable (js ''Foo  Bar'') = js ''foo bar''
   \<and> lenient_filtered asciiTable lenient_example = [book_foo]
   \<and> lenient_filtered asciiTable lenient_example =
       filter (\<lambda>b. occursIn (collapsedForm asciiTable (js ''foobar''))
                            (collapsedForm asciiTable (fieldValue Title b))
                 \<or> occursIn (strippedForm asciiTable (js ''foobar''))
                             (strippedForm asciiTable (fieldValue Title b)))
              [book_foo]
   \<and> submittedQuery (lenient_runSearch noNetwork lenient_example) \<noteq> []
   \<and> trim (submittedQuery (lenient_runSearch noNetwork lenient_example)) \<noteq> []"
proof -
  note t = C6_lenient_match [where tbl = asciiTable and st = lenient_example
                               and fetch = noNetwork and s = "js ''Foo  Bar''"
                               and t = "[]" and q = "[]" and b = book_foo]
  have a: "unicodeLower asciiTable"
    by (rule unicodeLower_asciiTable)
  have q: "submittedQuery lenient_example = js ''foobar''
           \<and> selectedField lenient_example = Title
           \<and> site lenient_example = js ''4''
           \<and> cache lenient_example (js ''4'') = Some [book_foo]"
    by (simp add: lenient_example_def)
  have ne: "js ''4'' \<noteq> []"
    by (simp add: js_def)
  have c: "trim (submittedQuery lenient_example) \<noteq> []"
    by (simp add: q js_def trim_def isWhiteSpace_def)
  have r: "submittedQuery (lenient_runSearch noNetwork lenient_example) \<noteq> []"
    by (simp add: lenient_runSearch_def loadSiteBooksIfNeeded_def lenient_example_def Let_def
        js_def trim_def isWhiteSpace_def)
  from t a have "normalizeBase asciiTable (js ''Foo  Bar'')
                   = joinSpace (wsWords (toLowerCase asciiTable (trim (js ''Foo  Bar''))))"
    by blast
  also have "toLowerCase asciiTable (trim (js ''Foo  Bar'')) = js ''foo  bar''"
    by (simp add: toLowerCase_asciiTable js_def trim_def isWhiteSpace_def asciiLowerUnit_def)
  also have "joinSpace (wsWords (js ''foo  bar'')) = js ''foo bar''"
    by (simp add: wsWords.simps js_def isWhiteSpace_def Let_def)
  finally have d: "normalizeBase asciiTable (js ''Foo  Bar'') = js ''foo bar''" .
  from t a have e: "lenient_filtered asciiTable lenient_example = [book_foo]"
    by blast
  from t a c
  have "lenient_filtered asciiTable lenient_example =
          filter (\<lambda>b. occursIn (collapsedForm asciiTable (submittedQuery lenient_example))
                               (collapsedForm asciiTable
                                  (fieldValue (selectedField lenient_example) b))
                    \<or> occursIn (strippedForm asciiTable (submittedQuery lenient_example))
                                (strippedForm asciiTable
                                   (fieldValue (selectedField lenient_example) b)))
                 (if site lenient_example = [] then []
                  else case cache lenient_example (site lenient_example) of
                         None \<Rightarrow> [] | Some bs \<Rightarrow> bs)"
    by blast
  with q ne have f: "lenient_filtered asciiTable lenient_example =
       filter (\<lambda>b. occursIn (collapsedForm asciiTable (js ''foobar''))
                            (collapsedForm asciiTable (fieldValue Title b))
                 \<or> occursIn (strippedForm asciiTable (js ''foobar''))
                             (strippedForm asciiTable (fieldValue Title b)))
              [book_foo]"
    by simp
  from t r have g: "trim (submittedQuery (lenient_runSearch noNetwork lenient_example)) \<noteq> []"
    by blast
  from a c d e f r g show ?thesis by blast
qed

text \<open>
  C7. For all strings \<open>t\<close> and \<open>q\<close>, whatever the case mapping: if normalizeBase of \<open>t\<close>
  contains normalizeBase of \<open>q\<close> then normalizeNoSpace of \<open>t\<close> contains normalizeNoSpace of
  \<open>q\<close>. So the disjunction of the two tests is equivalent to the second test alone, and the
  result list is the one the second test alone selects.
\<close>

theorem C7_nospace_subsumes:
  "(str_includes (normalizeBase tbl t) (normalizeBase tbl q) \<longrightarrow>
      str_includes (normalizeNoSpace tbl t) (normalizeNoSpace tbl q))
   \<and> ((str_includes (normalizeBase tbl t) (normalizeBase tbl q)
         \<or> str_includes (normalizeNoSpace tbl t) (normalizeNoSpace tbl q))
        = str_includes (normalizeNoSpace tbl t) (normalizeNoSpace tbl q))
   \<and> lenient_filtered tbl st =
       (if normalizeBase tbl (submittedQuery st) = [] then []
        else filter (\<lambda>b. str_includes (normalizeNoSpace tbl (fieldOf (selectedField st) b))
                                      (normalizeNoSpace tbl (submittedQuery st)))
                    (lenient_books st))"
proof -
  have 1: "str_includes (normalizeBase tbl t) (normalizeBase tbl q) \<longrightarrow>
      str_includes (normalizeNoSpace tbl t) (normalizeNoSpace tbl q)" for t q
    using nospace_subsumes by blast
  then have 2: "(str_includes (normalizeBase tbl t) (normalizeBase tbl q)
         \<or> str_includes (normalizeNoSpace tbl t) (normalizeNoSpace tbl q))
        = str_includes (normalizeNoSpace tbl t) (normalizeNoSpace tbl q)" for t q
    by blast
  have 3: "lenient_filtered tbl st =
       (if normalizeBase tbl (submittedQuery st) = [] then []
        else filter (\<lambda>b. str_includes (normalizeNoSpace tbl (fieldOf (selectedField st) b))
                                      (normalizeNoSpace tbl (submittedQuery st)))
                    (lenient_books st))"
    by (simp add: lenient_filtered_def Let_def 2)
  from 1 2 3 show ?thesis by blast
qed

theorem C7_nospace_subsumes_witness:
  "str_includes (normalizeBase asciiTable (js ''Foo  Bar'')) (normalizeBase asciiTable (js ''o b''))
   \<and> str_includes (normalizeNoSpace asciiTable (js ''Foo  Bar''))
                   (normalizeNoSpace asciiTable (js ''o b''))"
proof -
  have "str_includes (normalizeBase asciiTable (js ''Foo  Bar''))
          (normalizeBase asciiTable (js ''o b''))"
    by (simp add: eval_defs toLowerCase_asciiTable)
  with C7_nospace_subsumes [where tbl = asciiTable and t = "js ''Foo  Bar''" and q = "js ''o b''"]
  show ?thesis by blast
qed

section \<open>The length check and validation\<close>

lemma clusters_le: "clusters ps \<le> length ps"
  by (induction ps rule: clusters.induct) auto

lemma perceived_le: "perceivedCharacters s \<le> countGraphemes s"
  by (simp add: perceivedCharacters_def countGraphemes_def clusters_le)

lemma runSearch_accepts:
  "(error (runSearch st) = NoMessage) = (2 \<le> countGraphemes (trim (query st)))"
  by (cases "trim (query st)") (auto simp: runSearch_def Let_def countGraphemes_def)

text \<open>
  C1. The minimum of App.jsx is a minimum of characters as a user perceives them: the
  helper is named countGraphemes and the message asks for two characters. The check counts
  the elements of \<^verbatim>\<open>Array.from\<close>, which are code points. A surrogate pair is counted
  once, as intended, but a character written as a base with a combining mark, or a Hangul
  syllable written in its letters, is counted once per code point: the queries U+0065
  U+0301 and U+1100 U+1161, one perceived character each, are counted as 2 and accepted.
\<close>

theorem C1_failing_input:
  "trim [0x65, 0x0301] = [0x65, 0x0301]
   \<and> Array_from [0x65, 0x0301] = [[0x65], [0x0301]]
   \<and> countGraphemes [0x65, 0x0301] = 2
   \<and> perceivedCharacters [0x65, 0x0301] = 1
   \<and> error (runSearch (typed [0x65, 0x0301])) = NoMessage
   \<and> submittedQuery (runSearch (typed [0x65, 0x0301])) = [0x65, 0x0301]
   \<and> countGraphemes [0x1100, 0x1161] = 2
   \<and> perceivedCharacters [0x1100, 0x1161] = 1
   \<and> error (runSearch (typed [0x1100, 0x1161])) = NoMessage
   \<and> countGraphemes [0xD83D, 0xDE00] = 1
   \<and> error (runSearch (typed [0xD83D, 0xDE00])) = AtLeastTwo"
  by (simp add: countGraphemes_def perceivedCharacters_def isMark_def isCombiningMark_def
      isConjoiningJamo_def isHighSurrogate_def isLowSurrogate_def runSearch_def typed_def
      trim_def isWhiteSpace_def Let_def)

text \<open>
  C2, as the code has it. In both versions, whatever the case mapping, a submitted query
  that fails validation (blank, in App.jsx shorter than two code points, in the other
  version no library chosen) sets the field-level message, resets the submitted query to
  the empty string and the page to 1, so the result list becomes empty; the loaded books
  or the cache, the typed query and the selected field stay as they are.
\<close>

theorem C2_validation_failure:
  "(trim (query st) = [] \<or> countGraphemes (trim (query st)) < 2 \<longrightarrow>
      error (runSearch st) \<noteq> NoMessage
      \<and> submittedQuery (runSearch st) = []
      \<and> currentPage (runSearch st) = 1
      \<and> filtered tbl (runSearch st) = []
      \<and> books (runSearch st) = books st
      \<and> query (runSearch st) = query st
      \<and> selectedField (runSearch st) = selectedField st)
   \<and> (site lt = [] \<or> trim (query lt) = [] \<longrightarrow>
      error (lenient_runSearch fetch lt) \<noteq> NoMessage
      \<and> submittedQuery (lenient_runSearch fetch lt) = []
      \<and> currentPage (lenient_runSearch fetch lt) = 1
      \<and> lenient_filtered tbl (lenient_runSearch fetch lt) = []
      \<and> cache (lenient_runSearch fetch lt) = cache lt
      \<and> site (lenient_runSearch fetch lt) = site lt
      \<and> query (lenient_runSearch fetch lt) = query lt
      \<and> selectedField (lenient_runSearch fetch lt) = selectedField lt)"
proof -
  have n: "normalizeText tbl [] = []" "normalizeBase tbl [] = []"
    by (simp_all add: normalizeBase_normalizeText normalizeText_empty)
  have 1: "trim (query st) = [] \<or> countGraphemes (trim (query st)) < 2 \<longrightarrow>
      error (runSearch st) \<noteq> NoMessage
      \<and> submittedQuery (runSearch st) = []
      \<and> currentPage (runSearch st) = 1
      \<and> filtered tbl (runSearch st) = []
      \<and> books (runSearch st) = books st
      \<and> query (runSearch st) = query st
      \<and> selectedField (runSearch st) = selectedField st"
    by (auto simp: runSearch_def filtered_def Let_def countGraphemes_def n)
  have 2: "site lt = [] \<or> trim (query lt) = [] \<longrightarrow>
      error (lenient_runSearch fetch lt) \<noteq> NoMessage
      \<and> submittedQuery (lenient_runSearch fetch lt) = []
      \<and> currentPage (lenient_runSearch fetch lt) = 1
      \<and> lenient_filtered tbl (lenient_runSearch fetch lt) = []
      \<and> cache (lenient_runSearch fetch lt) = cache lt
      \<and> site (lenient_runSearch fetch lt) = site lt
      \<and> query (lenient_runSearch fetch lt) = query lt
      \<and> selectedField (lenient_runSearch fetch lt) = selectedField lt"
    by (auto simp: lenient_runSearch_def lenient_filtered_def Let_def n)
  from 1 2 show ?thesis by blast
qed

theorem C2_validation_failure_witness:
  "countGraphemes (trim (query (strict_shown\<lparr>query := js ''f''\<rparr>))) < 2
   \<and> error (runSearch (strict_shown\<lparr>query := js ''f''\<rparr>)) = AtLeastTwo
   \<and> filtered asciiTable (runSearch (strict_shown\<lparr>query := js ''f''\<rparr>)) = []
   \<and> books (runSearch (strict_shown\<lparr>query := js ''f''\<rparr>)) = [book_FOO]
   \<and> site lenient_unselected = []
   \<and> error (lenient_runSearch noNetwork lenient_unselected) = SelectSite
   \<and> lenient_filtered asciiTable (lenient_runSearch noNetwork lenient_unselected) = []"
proof -
  have a: "countGraphemes (trim (query (strict_shown\<lparr>query := js ''f''\<rparr>))) < 2"
    by (simp add: countGraphemes_def js_def trim_def isWhiteSpace_def)
  have b: "error (runSearch (strict_shown\<lparr>query := js ''f''\<rparr>)) = AtLeastTwo"
    by (simp add: runSearch_def Let_def js_def trim_def isWhiteSpace_def)
  have c: "books (strict_shown\<lparr>query := js ''f''\<rparr>) = [book_FOO]"
    by (simp add: strict_shown_def runSearch_def strict_example_def Let_def)
  have d: "site lenient_unselected = []"
    by (simp add: lenient_unselected_def)
  have e: "error (lenient_runSearch noNetwork lenient_unselected) = SelectSite"
    by (simp add: lenient_runSearch_def lenient_unselected_def Let_def)
  from a b c d e
    C2_validation_failure [where st = "strict_shown\<lparr>query := js ''f''\<rparr>"
                             and lt = lenient_unselected and fetch = noNetwork
                             and tbl = asciiTable]
  show ?thesis by simp
qed

text \<open>
  The claim as stated fails: with one book shown for the query \<open>foo   bar\<close>, submitting a
  blank query leaves an empty result list, in both versions.
\<close>

theorem C2_counterexample:
  "filtered asciiTable strict_shown = [book_FOO]
   \<and> trim (query (strict_shown\<lparr>query := js '' ''\<rparr>)) = []
   \<and> filtered asciiTable (runSearch (strict_shown\<lparr>query := js '' ''\<rparr>)) = []
   \<and> filtered asciiTable (runSearch (strict_shown\<lparr>query := js '' ''\<rparr>))
       \<noteq> filtered asciiTable strict_shown
   \<and> lenient_filtered asciiTable lenient_example = [book_foo]
   \<and> trim (query (lenient_example\<lparr>query := js '' ''\<rparr>)) = []
   \<and> lenient_filtered asciiTable
        (lenient_runSearch noNetwork (lenient_example\<lparr>query := js '' ''\<rparr>))
       \<noteq> lenient_filtered asciiTable lenient_example"
proof -
  have n: "normalizeText asciiTable [] = []" "normalizeBase asciiTable [] = []"
    by (simp_all add: normalizeBase_normalizeText normalizeText_empty)
  have a: "filtered asciiTable strict_shown = [book_FOO]"
    using ex_strict [OF unicodeLower_asciiTable] by (simp add: strict_shown_def)
  have b: "trim (js '' '') = []"
    by (simp add: js_def trim_def isWhiteSpace_def)
  have c: "filtered asciiTable (runSearch (strict_shown\<lparr>query := js '' ''\<rparr>)) = []"
    by (simp add: runSearch_def filtered_def Let_def b n)
  have d: "lenient_filtered asciiTable
             (lenient_runSearch noNetwork (lenient_example\<lparr>query := js '' ''\<rparr>)) = []"
    by (simp add: lenient_runSearch_def lenient_filtered_def Let_def b n)
  have e: "lenient_filtered asciiTable lenient_example = [book_foo]"
    using ex_lenient [OF unicodeLower_asciiTable] by simp
  from a b c d e show ?thesis by simp
qed

section \<open>Row objects\<close>

lemma fold_setProp_other:
  "\<forall>i\<in>set xs. key i \<noteq> k \<Longrightarrow>
   fold (\<lambda>i ob. setProp ob (key i) (val i)) xs ob0 k = ob0 k"
  by (induction xs arbitrary: ob0) (auto simp: setProp_def)

lemma fold_setProp_last:
  "key i \<noteq> js ''__proto__'' \<Longrightarrow> \<forall>j\<in>set post. key j \<noteq> key i \<Longrightarrow>
   fold (\<lambda>i ob. setProp ob (key i) (val i)) (pre @ i # post) ob0 (key i) = Some (val i)"
  by (simp add: fold_setProp_other) (simp add: setProp_def)

lemma upt_split:
  assumes "i < n"
  shows "[0..<n] = [0..<i] @ i # [Suc i..<n]"
proof -
  have "[0..<i + (n - i)] = [0..<i] @ [i..<i + (n - i)]"
    by (rule upt_add_eq_append) simp
  with assms have "[0..<n] = [0..<i] @ [i..<n]" by simp
  with assms show ?thesis by (simp add: upt_conv_Cons)
qed

lemma rowToObject_id:
  "\<forall>i<length headers. colKey headers i \<noteq> js ''__id'' \<Longrightarrow>
   rowToObject headers idx r (js ''__id'') = Some (toString idx)"
  unfolding rowToObject_def
  by (subst fold_setProp_other) simp_all

lemma rowToObject_col:
  assumes "i < length headers"
    and "colKey headers i \<noteq> js ''__proto__''"
    and "\<forall>j. i < j \<and> j < length headers \<longrightarrow> colKey headers j \<noteq> colKey headers i"
  shows "rowToObject headers idx r (colKey headers i) = Some (trim (cell r i))"
proof -
  have "\<forall>j\<in>set [Suc i..<length headers]. colKey headers j \<noteq> colKey headers i"
    using assms(3) by auto
  with assms(2)
  have "fold (\<lambda>i ob. setProp ob (colKey headers i) (trim (cell r i)))
          ([0..<i] @ i # [Suc i..<length headers]) [js ''__id'' \<mapsto> toString idx]
          (colKey headers i) = Some (trim (cell r i))"
    by (rule fold_setProp_last)
  then show ?thesis
    unfolding rowToObject_def using upt_split [OF assms(1)] by simp
qed

lemma rowsToObjects_nth:
  "idx < length dataRows \<Longrightarrow>
   rowsToObjects (headersRaw # dataRows) ! idx
     = rowToObject (map normalizeHeader headersRaw) idx (dataRows ! idx)"
  by (simp add: rowsToObjects_def nth_enumerate_eq)

lemma rowsToObjects_length:
  "length (rowsToObjects (headersRaw # dataRows)) = length dataRows"
  by (simp add: rowsToObjects_def)

lemma ex_toString: "toString 0 = js ''0'' \<and> toString 7 = js ''7'' \<and> toString 12 = js ''12'' \<and> toString 305 = js ''305''"
  by (simp add: js_def)

lemma ex_dup:
  "(rowsToObjects [[js ''a'', js ''a''], [js ''1'', js ''2'']] ! 0) (normalizeHeader (js ''a''))
     = Some (js ''2'')"
  by (simp add: rowsToObjects_def rowToObject_def setProp_def colKey_def cell_def
      normalizeHeader_def js_def trim_def isWhiteSpace_def)

lemma ex_id:
  "(rowsToObjects [[js ''__id''], [js ''x'']] ! 0) (js ''__id'') = Some (js ''x'')"
  by (simp add: rowsToObjects_def rowToObject_def setProp_def colKey_def cell_def
      normalizeHeader_def js_def trim_def isWhiteSpace_def)

lemma ex_keys:
  "map normalizeHeader example_header = [js ''Title'', [], js ''Author'']
   \<and> colKey (map normalizeHeader example_header) 0 = js ''Title''
   \<and> colKey (map normalizeHeader example_header) 1 = js ''__col_1''
   \<and> colKey (map normalizeHeader example_header) 2 = js ''Author''"
  by (simp add: example_header_def normalizeHeader_def colKey_def js_def trim_def isWhiteSpace_def)

text \<open>
  C3, as the code has it. For every header row and data rows, rowsToObjects gives one
  object per data row, in order. The object of the data row at index \<open>idx\<close> holds the
  decimal string of \<open>idx\<close> under \<open>__id\<close> unless the key of a column is \<open>__id\<close>; under the
  key of column \<open>i\<close> it holds the trimmed cell \<open>i\<close> of the row, the empty string when the
  row has no cell \<open>i\<close>, unless a later column has the same key or the key is \<open>__proto__\<close>.
  The key of a column is its normalised header, or \<open>__col_i\<close> when that is empty.
\<close>

theorem C3_rowsToObjects:
  "length (rowsToObjects (headersRaw # dataRows)) = length dataRows
   \<and> (idx < length dataRows
        \<and> (\<forall>j. j < length headersRaw \<longrightarrow>
               colKey (map normalizeHeader headersRaw) j \<noteq> js ''__id'')
       \<longrightarrow> (rowsToObjects (headersRaw # dataRows) ! idx) (js ''__id'') = Some (toString idx))
   \<and> (idx < length dataRows \<and> i < length headersRaw
        \<and> colKey (map normalizeHeader headersRaw) i \<noteq> js ''__proto__''
        \<and> (\<forall>j. i < j \<and> j < length headersRaw \<longrightarrow>
               colKey (map normalizeHeader headersRaw) j
                 \<noteq> colKey (map normalizeHeader headersRaw) i)
       \<longrightarrow> (rowsToObjects (headersRaw # dataRows) ! idx)
             (colKey (map normalizeHeader headersRaw) i)
           = Some (trim (cell (dataRows ! idx) i)))
   \<and> (i < length headersRaw \<longrightarrow>
        colKey (map normalizeHeader headersRaw) i
          = (if normalizeHeader (headersRaw ! i) = [] then js ''__col_'' @ toString i
             else normalizeHeader (headersRaw ! i)))
   \<and> cell r i = (if i < length r then r ! i else [])
   \<and> trim (cell [] i) = []
   \<and> toString 0 = js ''0'' \<and> toString 12 = js ''12''"
proof -
  let ?hs = "map normalizeHeader headersRaw"
  have 1: "length (rowsToObjects (headersRaw # dataRows)) = length dataRows"
    by (rule rowsToObjects_length)
  have 2: "idx < length dataRows
        \<and> (\<forall>j. j < length headersRaw \<longrightarrow> colKey ?hs j \<noteq> js ''__id'')
       \<longrightarrow> (rowsToObjects (headersRaw # dataRows) ! idx) (js ''__id'') = Some (toString idx)"
    using rowToObject_id [of ?hs idx "dataRows ! idx"]
    by (simp add: rowsToObjects_nth)
  have 3: "idx < length dataRows \<and> i < length headersRaw
        \<and> colKey ?hs i \<noteq> js ''__proto__''
        \<and> (\<forall>j. i < j \<and> j < length headersRaw \<longrightarrow> colKey ?hs j \<noteq> colKey ?hs i)
       \<longrightarrow> (rowsToObjects (headersRaw # dataRows) ! idx) (colKey ?hs i)
           = Some (trim (cell (dataRows ! idx) i))"
    using rowToObject_col [of i ?hs idx "dataRows ! idx"]
    by (simp add: rowsToObjects_nth)
  have 4: "i < length headersRaw \<longrightarrow>
        colKey ?hs i
          = (if normalizeHeader (headersRaw ! i) = [] then js ''__col_'' @ toString i
             else normalizeHeader (headersRaw ! i))"
    by (simp add: colKey_def)
  have 5: "cell r i = (if i < length r then r ! i else [])"
    by (simp add: cell_def)
  have 6: "trim (cell [] i) = []"
    by (simp add: cell_def trim_def)
  have 7: "toString 0 = js ''0'' \<and> toString 12 = js ''12''"
    using ex_toString by simp
  from 1 2 3 4 5 6 7 show ?thesis by blast
qed

theorem C3_rowsToObjects_witness:
  "(0::nat) < length [[js '' A '', js ''x'']]
   \<and> (2::nat) < length example_header
   \<and> colKey (map normalizeHeader example_header) 2 \<noteq> js ''__proto__''
   \<and> list_all (\<lambda>j. colKey (map normalizeHeader example_header) j \<noteq> js ''__id'') [0, 1, 2]
   \<and> (rowsToObjects (example_header # [[js '' A '', js ''x'']]) ! 0) (js ''__id'') = Some (js ''0'')
   \<and> (rowsToObjects (example_header # [[js '' A '', js ''x'']]) ! 0) (js ''Author'') = Some []
   \<and> colKey (map normalizeHeader example_header) 2 = js ''Author''"
proof -
  let ?hs = "map normalizeHeader example_header"
  have len: "length example_header = 3"
    by (simp add: example_header_def)
  have k: "colKey ?hs 0 = js ''Title'' \<and> colKey ?hs 1 = js ''__col_1''
           \<and> colKey ?hs 2 = js ''Author''"
    using ex_keys by blast
  have ne: "js ''Title'' \<noteq> js ''__id'' \<and> js ''__col_1'' \<noteq> js ''__id''
            \<and> js ''Author'' \<noteq> js ''__id'' \<and> js ''Author'' \<noteq> js ''__proto__''"
    by (simp add: js_def)
  have a: "\<forall>j. j < length example_header \<longrightarrow> colKey ?hs j \<noteq> js ''__id''"
  proof (intro allI impI)
    fix j assume "j < length example_header"
    then have "j = 0 \<or> j = 1 \<or> j = 2" using len by auto
    with k ne show "colKey ?hs j \<noteq> js ''__id''" by auto
  qed
  have b: "\<forall>j. 2 < j \<and> j < length example_header \<longrightarrow> colKey ?hs j \<noteq> colKey ?hs 2"
    using len by auto
  have c: "trim (cell ([[js '' A '', js ''x'']] ! 0) 2) = []"
    by (simp add: cell_def trim_def)
  have d: "toString 0 = js ''0''"
    using ex_toString by simp
  note t = C3_rowsToObjects [where headersRaw = example_header
                               and dataRows = "[[js '' A '', js ''x'']]"
                               and idx = 0 and i = 2]
  have l0: "(0::nat) < length [[js '' A '', js ''x'']]"
    by simp
  have l2: "(2::nat) < length example_header"
    using len by simp
  have p: "colKey ?hs 2 \<noteq> js ''__proto__''"
    using k ne by simp
  have la: "list_all (\<lambda>j. colKey ?hs j \<noteq> js ''__id'') [0, 1, 2]"
    using k ne by simp
  from t l0 a
  have "(rowsToObjects (example_header # [[js '' A '', js ''x'']]) ! 0) (js ''__id'')
          = Some (toString 0)"
    by blast
  with d have r1: "(rowsToObjects (example_header # [[js '' A '', js ''x'']]) ! 0) (js ''__id'')
          = Some (js ''0'')"
    by simp
  from t l0 l2 p b
  have "(rowsToObjects (example_header # [[js '' A '', js ''x'']]) ! 0) (colKey ?hs 2)
          = Some (trim (cell ([[js '' A '', js ''x'']] ! 0) 2))"
    by blast
  with k c have r2: "(rowsToObjects (example_header # [[js '' A '', js ''x'']]) ! 0)
                       (js ''Author'') = Some []"
    by simp
  from l0 l2 p la r1 r2 k show ?thesis by blast
qed

theorem C3_counterexample:
  "(rowsToObjects [[js ''a'', js ''a''], [js ''1'', js ''2'']] ! 0) (normalizeHeader (js ''a''))
     \<noteq> Some (trim (cell [js ''1'', js ''2''] 0))
   \<and> (rowsToObjects [[js ''__id''], [js ''x'']] ! 0) (js ''__id'') \<noteq> Some (toString 0)"
proof -
  have "trim (cell [js ''1'', js ''2''] 0) = js ''1''"
    by (simp add: cell_def js_def trim_def isWhiteSpace_def)
  moreover have "js ''2'' \<noteq> js ''1'' \<and> js ''x'' \<noteq> js ''0''"
    by (simp add: js_def)
  moreover have "toString 0 = js ''0''"
    using ex_toString by simp
  ultimately show ?thesis
    using ex_dup ex_id by simp
qed

end
